theory Spec2Isabelle
  imports Complex_Main "HOL-Library.Signed_Division" "HOL-Library.Sublist" "HOL-Library.Word"
begin

unbundle bit_operations_syntax

section \<open>Machine integers\<close>

text \<open>
  Go's \<open>int64\<close>, \<open>int\<close> (64 bits on the supported platforms), \<open>uint64\<close> and
  \<open>uint32\<close> are modelled as \<open>int\<close> with the wrap-around written out: every
  arithmetic result of the source is passed through the wrap of its type.
  Go's \<open>/\<close> on signed integers truncates towards zero (\<open>sdiv\<close>) and panics on
  a zero divisor; the panic is the value \<open>None\<close>.
\<close>

definition i64 :: "int \<Rightarrow> int" where
  "i64 x = signed_take_bit 63 x"

definition u64 :: "int \<Rightarrow> int" where
  "u64 x = take_bit 64 x"

definition u32 :: "int \<Rightarrow> int" where
  "u32 x = take_bit 32 x"

definition maxInt64 :: "int \<Rightarrow> int \<Rightarrow> int" where
  "maxInt64 a b = (if a > b then a else b)"

definition absInt64 :: "int \<Rightarrow> int" where
  "absInt64 v = (if v < 0 then i64 (- v) else v)"

type_synonym byte = "8 word"

text \<open>The range of the 32-bit timestamps of RTMP, in milliseconds.\<close>

definition inRange :: "int \<Rightarrow> bool" where
  "inRange t = (0 \<le> t \<and> t < 2 ^ 32)"

section \<open>Floating-point numbers\<close>

text \<open>
  A \<open>float64\<close> is modelled by the rational number it holds; the two zeros are one
  number, infinities and NaN have no counterpart. \<open>float64 x\<close> is the result of
  rounding the exact value \<open>x\<close> to the format: to the nearest multiple of the unit in
  the last place of \<open>x\<close>, ties to the even multiple. With \<open>2 ^ e \<le> |x| < 2 ^ (e + 1)\<close>
  that unit is \<open>2 ^ (e - 52)\<close>, and \<open>2 ^ (- 1074)\<close> in the subnormal range. Overflow
  (a magnitude of 2^1024 or more) is not modelled. \<open>bitlen n\<close> is the number of binary
  digits of \<open>n\<close>.
\<close>

definition roundHalfEven :: "rat \<Rightarrow> int" where
  "roundHalfEven x =
     (let f = \<lfloor>x\<rfloor>; r = x - of_int f
      in if r < 1 / 2 then f else if r > 1 / 2 then f + 1 else if even f then f else f + 1)"

definition pow2 :: "int \<Rightarrow> rat" where
  "pow2 e = (if 0 \<le> e then 2 ^ nat e else 1 / 2 ^ nat (- e))"

function bitlen :: "int \<Rightarrow> int" where
  "bitlen n = (if n \<le> 0 then 0 else 1 + bitlen (n div 2))"
  by pat_completeness auto
termination by (relation "measure nat") auto

definition exponent :: "rat \<Rightarrow> int" where
  "exponent x =
     (let (a, b) = quotient_of \<bar>x\<bar>; e = bitlen a - bitlen b
      in if pow2 e \<le> \<bar>x\<bar> then e else e - 1)"

definition float64 :: "rat \<Rightarrow> rat" where
  "float64 x =
     (if x = 0 then 0
      else let ulp = pow2 (max (exponent x) (- 1022) - 52)
           in of_int (roundHalfEven (x / ulp)) * ulp)"

text \<open>
  \<open>Duration.Seconds()\<close> of a \<open>time.Duration\<close> \<open>d\<close> (nanoseconds, an \<open>int64\<close>) is
  \<open>float64(d / Second) + float64(d % Second) / 1e9\<close>, the division and the remainder
  truncating towards zero, every floating-point operation rounding its exact result.
\<close>

definition Seconds :: "int \<Rightarrow> rat" where
  "Seconds d =
     (let sec = d sdiv 1000000000; nsec = d smod 1000000000
      in float64 (float64 (of_int sec) + float64 (float64 (of_int nsec) / 1000000000)))"

section \<open>Strings (Go's strings, bytes, fmt and path/filepath)\<close>

text \<open>
  A Go string is a sequence of bytes, a \<open>string\<close> here. \<open>strings.TrimSpace\<close> and
  \<open>bytes.TrimSpace\<close> remove leading and trailing Unicode white space:
  \<open>spaceRunes\<close> lists the UTF-8 encodings of the white-space code points (U+0009 to
  U+000D, U+0020, U+0085, U+00A0, U+1680, U+2000 to U+200A, U+2028, U+2029, U+202F,
  U+205F, U+3000). No encoding is a prefix or a suffix of another one, so the leading
  (trailing) white-space rune of a string, if any, is the one encoding that is a prefix
  (suffix) of it.
\<close>

definition spaceRunes :: "string list" where
  "spaceRunes =
     [[CHR 0x09], [CHR 0x0A], [CHR 0x0B], [CHR 0x0C], [CHR 0x0D], [CHR 0x20],
      [CHR 0xC2, CHR 0x85], [CHR 0xC2, CHR 0xA0],
      [CHR 0xE1, CHR 0x9A, CHR 0x80],
      [CHR 0xE2, CHR 0x80, CHR 0x80], [CHR 0xE2, CHR 0x80, CHR 0x81],
      [CHR 0xE2, CHR 0x80, CHR 0x82], [CHR 0xE2, CHR 0x80, CHR 0x83],
      [CHR 0xE2, CHR 0x80, CHR 0x84], [CHR 0xE2, CHR 0x80, CHR 0x85],
      [CHR 0xE2, CHR 0x80, CHR 0x86], [CHR 0xE2, CHR 0x80, CHR 0x87],
      [CHR 0xE2, CHR 0x80, CHR 0x88], [CHR 0xE2, CHR 0x80, CHR 0x89],
      [CHR 0xE2, CHR 0x80, CHR 0x8A],
      [CHR 0xE2, CHR 0x80, CHR 0xA8], [CHR 0xE2, CHR 0x80, CHR 0xA9],
      [CHR 0xE2, CHR 0x80, CHR 0xAF], [CHR 0xE2, CHR 0x81, CHR 0x9F],
      [CHR 0xE3, CHR 0x80, CHR 0x80]]"

definition spaceLen :: "string \<Rightarrow> nat" where
  "spaceLen s = (case filter (\<lambda>r. prefix r s) spaceRunes of [] \<Rightarrow> 0 | r # _ \<Rightarrow> length r)"

definition lastSpaceLen :: "string \<Rightarrow> nat" where
  "lastSpaceLen s = (case filter (\<lambda>r. suffix r s) spaceRunes of [] \<Rightarrow> 0 | r # _ \<Rightarrow> length r)"

function trimLeftSpace :: "string \<Rightarrow> string" where
  "trimLeftSpace s = (if s = [] \<or> spaceLen s = 0 then s else trimLeftSpace (drop (spaceLen s) s))"
  by pat_completeness auto
termination
  by (relation "measure length") auto

function trimRightSpace :: "string \<Rightarrow> string" where
  "trimRightSpace s =
     (if s = [] \<or> lastSpaceLen s = 0 then s
      else trimRightSpace (take (length s - lastSpaceLen s) s))"
  by pat_completeness auto
termination
  by (relation "measure length") auto

definition TrimSpace :: "string \<Rightarrow> string" where
  "TrimSpace s = trimRightSpace (trimLeftSpace s)"

text \<open>\<open>strings.Trim(s, "/")\<close>, \<open>strings.Index(s, "?")\<close>, \<open>strings.Split\<close> with a
  one-byte separator, \<open>strings.SplitN(s, sep, 2)\<close> and \<open>filepath.Base\<close> (Unix).\<close>

definition TrimSlash :: "string \<Rightarrow> string" where
  "TrimSlash s =
     rev (dropWhile (\<lambda>c. c = CHR ''/'') (rev (dropWhile (\<lambda>c. c = CHR ''/'') s)))"

definition IndexByte :: "string \<Rightarrow> char \<Rightarrow> nat option" where
  "IndexByte s c = (if c \<in> set s then Some (length (takeWhile (\<lambda>x. x \<noteq> c) s)) else None)"

fun Split :: "char \<Rightarrow> string \<Rightarrow> string list" where
  "Split sep [] = [[]]"
| "Split sep (c # cs) =
     (if c = sep then [] # Split sep cs
      else (case Split sep cs of x # xs \<Rightarrow> (c # x) # xs | [] \<Rightarrow> [[c]]))"

definition SplitN2 :: "char \<Rightarrow> string \<Rightarrow> string list" where
  "SplitN2 sep s =
     (if sep \<in> set s
      then [takeWhile (\<lambda>x. x \<noteq> sep) s, tl (dropWhile (\<lambda>x. x \<noteq> sep) s)]
      else [s])"

definition Base :: "string \<Rightarrow> string" where
  "Base path =
     (if path = [] then ''.''
      else
        let p1 = rev (dropWhile (\<lambda>c. c = CHR ''/'') (rev path));
            p2 = rev (takeWhile (\<lambda>c. c \<noteq> CHR ''/'') (rev p1))
        in if p2 = [] then ''/'' else p2)"

text \<open>Decimal output of \<open>%d\<close>.\<close>

definition digitChar :: "nat \<Rightarrow> char" where
  "digitChar d = char_of (48 + d)"

fun showNat :: "nat \<Rightarrow> string" where
  "showNat n = (if n < 10 then [digitChar n] else showNat (n div 10) @ [digitChar (n mod 10)])"

definition showInt :: "int \<Rightarrow> string" where
  "showInt i = (if i < 0 then CHR ''-'' # showNat (nat (- i)) else showNat (nat i))"

text \<open>The line feed and the double quote.\<close>

definition nl :: char where "nl = CHR 0x0A"

definition dq :: char where "dq = CHR 0x22"

text \<open>
  \<open>strconv.ParseUint(s, 10, 64)\<close>: a non-empty string of decimal digits whose value is
  below 2^64; anything else is an error (\<open>None\<close>).
\<close>

definition isDigit :: "char \<Rightarrow> bool" where
  "isDigit c = (48 \<le> (of_char c :: nat) \<and> (of_char c :: nat) \<le> 57)"

definition digitVal :: "char \<Rightarrow> int" where
  "digitVal c = int (of_char c) - 48"

definition intOfDigits :: "string \<Rightarrow> int" where
  "intOfDigits s = foldl (\<lambda>n c. 10 * n + digitVal c) 0 s"

definition ParseUint :: "string \<Rightarrow> int option" where
  "ParseUint s =
     (if s = [] \<or> \<not> list_all isDigit s then None
      else if intOfDigits s \<ge> 2 ^ 64 then None
      else Some (intOfDigits s))"

text \<open>
  \<open>strconv.ParseFloat(s, 64)\<close> on decimal numerals: an optional sign, digits, and
  optionally a point and digits, with at least one digit. \<open>parseDecimal\<close> is the
  number written, \<open>ParseFloat\<close> the \<open>float64\<close> nearest to it. The exponent,
  hexadecimal, infinity and NaN notations that Go accepts as well are errors in the
  model; \<open>Render\<close> never writes them.
\<close>

definition parseUnsignedDecimal :: "string \<Rightarrow> rat option" where
  "parseUnsignedDecimal s =
     (let ip = takeWhile isDigit s; r = dropWhile isDigit s
      in if r = [] then (if ip = [] then None else Some (of_int (intOfDigits ip)))
         else if hd r = CHR ''.'' \<and> list_all isDigit (tl r) \<and> (ip \<noteq> [] \<or> tl r \<noteq> [])
         then Some (of_int (intOfDigits ip) + of_int (intOfDigits (tl r)) / 10 ^ length (tl r))
         else None)"

definition parseDecimal :: "string \<Rightarrow> rat option" where
  "parseDecimal s =
     (case s of
        [] \<Rightarrow> None
      | c # cs \<Rightarrow>
          if c = CHR ''-'' then map_option uminus (parseUnsignedDecimal cs)
          else if c = CHR ''+'' then parseUnsignedDecimal cs
          else parseUnsignedDecimal s)"

definition ParseFloat :: "string \<Rightarrow> rat option" where
  "ParseFloat s = map_option float64 (parseDecimal s)"

text \<open>
  \<open>strings.Trim(s, "\"")\<close> and \<open>strings.TrimPrefix\<close>.
\<close>

definition TrimQuotes :: "string \<Rightarrow> string" where
  "TrimQuotes s = rev (dropWhile (\<lambda>c. c = dq) (rev (dropWhile (\<lambda>c. c = dq) s)))"

definition TrimPrefix :: "string \<Rightarrow> string \<Rightarrow> string" where
  "TrimPrefix s pre = (if prefix pre s then drop (length pre) s else s)"

text \<open>
  \<open>fmt.Sprintf("%.3f", d)\<close>: the sign, the integer part and three decimals of the exact
  value of the \<open>float64\<close> rounded to thousandths, ties to even, as \<open>strconv\<close> rounds
  the exact decimal expansion.
\<close>

definition pad3 :: "nat \<Rightarrow> string" where
  "pad3 n = [digitChar (n div 100), digitChar (n div 10 mod 10), digitChar (n mod 10)]"

definition fmt3 :: "rat \<Rightarrow> string" where
  "fmt3 d =
     (let k = nat (roundHalfEven (\<bar>d\<bar> * 1000))
      in (if d < 0 then ''-'' else []) @ showNat (k div 1000) @ ''.'' @ pad3 (k mod 1000))"


section \<open>Codec parsers (pkg/util)\<close>

text \<open>
  \<open>ParseAVCDecoderConfig\<close>. A slice \<open>data[a:b]\<close> is \<open>take (b - a) (drop a data)\<close>; the
  two loops of the source read the SPS and the PPS list in the same way and differ in
  their error messages, which \<open>readParamSets\<close> takes as arguments. It returns the
  offset after the last set and the sets read.
\<close>

datatype avcError =
  TooShort | VersionNot1 | UnsupportedLengthSize nat
  | InvalidSPSLength | InvalidSPSData | InvalidPPSCount | InvalidPPSLength | InvalidPPSData

record AVCConfig =
  Profile :: byte
  Compatibility :: byte
  Level :: byte
  LengthSize :: int
  SPS :: "byte list list"
  PPS :: "byte list list"

fun readParamSets ::
  "avcError \<Rightarrow> avcError \<Rightarrow> nat \<Rightarrow> byte list \<Rightarrow> nat \<Rightarrow> byte list list
     \<Rightarrow> avcError + (nat \<times> byte list list)" where
  "readParamSets eLen eData 0 data offset acc = Inr (offset, acc)"
| "readParamSets eLen eData (Suc n) data offset acc =
     (if length data < offset + 2 then Inl eLen
      else
        let len = unat (data ! offset) * 256 + unat (data ! (offset + 1));
            offset' = offset + 2
        in if length data < offset' + len then Inl eData
           else readParamSets eLen eData n data (offset' + len)
                  (acc @ [take len (drop offset' data)]))"

definition ParseAVCDecoderConfig :: "byte list \<Rightarrow> avcError + AVCConfig" where
  "ParseAVCDecoderConfig data =
     (if length data < 7 then Inl TooShort
      else if data ! 0 \<noteq> 1 then Inl VersionNot1
      else
        let lengthSize = unat ((data ! 4 AND 0x03) + 1)
        in if lengthSize \<noteq> 4 then Inl (UnsupportedLengthSize lengthSize)
           else
             let numSPS = unat (data ! 5 AND 0x1f)
             in case readParamSets InvalidSPSLength InvalidSPSData numSPS data 6 [] of
                  Inl e \<Rightarrow> Inl e
                | Inr (offset, sps) \<Rightarrow>
                    if length data < offset + 1 then Inl InvalidPPSCount
                    else
                      let numPPS = unat (data ! offset)
                      in case readParamSets InvalidPPSLength InvalidPPSData numPPS data
                                (offset + 1) [] of
                           Inl e \<Rightarrow> Inl e
                         | Inr (offset2, pps) \<Rightarrow>
                             Inr \<lparr>Profile = data ! 1, Compatibility = data ! 2,
                                  Level = data ! 3, LengthSize = 4, SPS = sps, PPS = pps\<rparr>)"

text \<open>The record layout in the words of the specification.\<close>

definition encodeSets :: "byte list list \<Rightarrow> byte list" where
  "encodeSets xs =
     concat (map (\<lambda>x. [of_nat (length x div 256), of_nat (length x mod 256)] @ x) xs)"

definition isAVCRecord :: "byte list \<Rightarrow> AVCConfig \<Rightarrow> bool" where
  "isAVCRecord data c =
     (\<exists>b4 b5 rest.
        data = [1, Profile c, Compatibility c, Level c, b4, b5] @ encodeSets (SPS c)
               @ [of_nat (length (PPS c))] @ encodeSets (PPS c) @ rest
        \<and> unat ((b4 AND 0x03) + 1) = 4
        \<and> unat (b5 AND 0x1f) = length (SPS c)
        \<and> length (PPS c) < 256
        \<and> (\<forall>x \<in> set (SPS c) \<union> set (PPS c). length x < 65536)
        \<and> LengthSize c = 4)"


definition demoAVCRecord :: "byte list" where
  "demoAVCRecord = [1, 100, 0, 31, 255, 225, 0, 2, 103, 66, 1, 0, 1, 104, 9]"

definition demoAVCConfig :: AVCConfig where
  "demoAVCConfig = \<lparr>Profile = 100, Compatibility = 0, Level = 31, LengthSize = 4,
                      SPS = [[103, 66]], PPS = [[104]]\<rparr>"

section \<open>Admission policy (pkg/policy)\<close>

datatype Decision = DecisionAccept | DecisionReject | DecisionDegraded

definition ReasonKeyInvalid :: string where "ReasonKeyInvalid = ''KEY_INVALID''"
definition ReasonCodecUnsupported :: string where "ReasonCodecUnsupported = ''CODEC_UNSUPPORTED''"
definition ReasonResolutionTooBig :: string where "ReasonResolutionTooBig = ''RESOLUTION_TOO_LARGE''"
definition ReasonGOPTooLong :: string where "ReasonGOPTooLong = ''GOP_TOO_LONG''"
definition ReasonNoKeyframeTimeout :: string where "ReasonNoKeyframeTimeout = ''NO_KEYFRAME_TIMEOUT''"
definition ReasonAudioUnsupported :: string where "ReasonAudioUnsupported = ''AUDIO_UNSUPPORTED''"

record Result =
  Decision :: Decision
  Reason :: string
  Message :: string
  StreamName :: string
  AllowRewind :: "bool option"

text \<open>The zero value of \<open>Result\<close> with the given decision.\<close>

definition emptyResult :: "Decision \<Rightarrow> Result" where
  "emptyResult d = \<lparr>Decision = d, Reason = [], Message = [], StreamName = [],
                     AllowRewind = None\<rparr>"

record PolicyConfig =
  MaxWidth :: int
  MaxHeight :: int
  FirstKeyframeTimeout :: int
  MaxGOPSeconds :: rat
  AllowNoAudio :: bool
  OnGOPTooLong :: string
  RequireAACLC :: bool
  RejectIfVideoNotH264 :: bool
  RejectIfAudioNotAAC :: bool

text \<open>
  \<open>inspect.Result\<close>. Its fields \<open>Profile\<close> and \<open>Level\<close> are named \<open>inspProfile\<close>
  and \<open>inspLevel\<close> here (\<open>AVCConfig\<close> has fields of the same names); the byte strings
  SPS, PPS and ASC are left out. A \<open>float64\<close> is modelled by the rational number it
  stands for; the comparisons of the code are those of the rationals on all values
  but NaN.
\<close>

record InspectResult =
  VideoCodec :: string
  AudioCodec :: string
  Width :: int
  Height :: int
  VideoFPS :: rat
  inspProfile :: int
  inspLevel :: int
  SampleRate :: int
  Channels :: int
  GOPSeconds :: rat
  KeyframeReceived :: bool
  InitialBitrate :: int

definition Evaluate :: "PolicyConfig \<Rightarrow> InspectResult \<Rightarrow> Result" where
  "Evaluate c result =
     (if RejectIfVideoNotH264 c \<and> VideoCodec result \<noteq> ''H264''
      then (emptyResult DecisionReject)\<lparr>Reason := ReasonCodecUnsupported,
                                          Message := ''video codec not supported''\<rparr>
      else if Width result > 0 \<and> Height result > 0
              \<and> (Width result > MaxWidth c \<or> Height result > MaxHeight c)
      then (emptyResult DecisionReject)\<lparr>Reason := ReasonResolutionTooBig,
                                          Message := ''resolution too large''\<rparr>
      else if \<not> KeyframeReceived result
      then (emptyResult DecisionReject)\<lparr>Reason := ReasonNoKeyframeTimeout,
                                          Message := ''first keyframe timeout''\<rparr>
      else if AudioCodec result = [] \<and> \<not> AllowNoAudio c
      then (emptyResult DecisionReject)\<lparr>Reason := ReasonAudioUnsupported,
                                          Message := ''audio required''\<rparr>
      else if RejectIfAudioNotAAC c \<and> AudioCodec result \<noteq> [] \<and> AudioCodec result \<noteq> ''AAC''
      then (emptyResult DecisionReject)\<lparr>Reason := ReasonAudioUnsupported,
                                          Message := ''audio codec not supported''\<rparr>
      else if MaxGOPSeconds c > 0 \<and> GOPSeconds result > 0
              \<and> GOPSeconds result > MaxGOPSeconds c
      then (if OnGOPTooLong c = ''reject''
            then (emptyResult DecisionReject)\<lparr>Reason := ReasonGOPTooLong,
                                                Message := ''gop too long''\<rparr>
            else (emptyResult DecisionDegraded)\<lparr>Reason := ReasonGOPTooLong,
                                                  Message := ''gop too long''\<rparr>)
      else emptyResult DecisionAccept)"

text \<open>The six checks, in the words of the specification with the guards of the code.\<close>

definition violation :: "PolicyConfig \<Rightarrow> InspectResult \<Rightarrow> nat \<Rightarrow> bool" where
  "violation c r k =
     (if k = 1 then RejectIfVideoNotH264 c \<and> VideoCodec r \<noteq> ''H264''
      else if k = 2 then Width r > 0 \<and> Height r > 0
                         \<and> (Width r > MaxWidth c \<or> Height r > MaxHeight c)
      else if k = 3 then \<not> KeyframeReceived r
      else if k = 4 then AudioCodec r = [] \<and> \<not> AllowNoAudio c
      else if k = 5 then RejectIfAudioNotAAC c \<and> AudioCodec r \<notin> {[], ''AAC''}
      else if k = 6 then MaxGOPSeconds c > 0 \<and> GOPSeconds r > 0
                         \<and> GOPSeconds r > MaxGOPSeconds c
      else False)"

definition verdict :: "PolicyConfig \<Rightarrow> nat \<Rightarrow> Decision \<times> string" where
  "verdict c k =
     (if k = 1 then (DecisionReject, ''CODEC_UNSUPPORTED'')
      else if k = 2 then (DecisionReject, ''RESOLUTION_TOO_LARGE'')
      else if k = 3 then (DecisionReject, ''NO_KEYFRAME_TIMEOUT'')
      else if k = 4 then (DecisionReject, ''AUDIO_UNSUPPORTED'')
      else if k = 5 then (DecisionReject, ''AUDIO_UNSUPPORTED'')
      else if k = 6 then (if OnGOPTooLong c = ''reject'' then (DecisionReject, ''GOP_TOO_LONG'')
                          else (DecisionDegraded, ''GOP_TOO_LONG''))
      else (DecisionAccept, []))"

definition demoPolicy :: PolicyConfig where
  "demoPolicy =
     \<lparr>MaxWidth = 1920, MaxHeight = 1920, FirstKeyframeTimeout = 2000000000,
      MaxGOPSeconds = 2, AllowNoAudio = False, OnGOPTooLong = ''reject'',
      RequireAACLC = False, RejectIfVideoNotH264 = True, RejectIfAudioNotAAC = True\<rparr>"

definition demoInspect :: InspectResult where
  "demoInspect =
     \<lparr>VideoCodec = ''H264'', AudioCodec = ''AAC'', Width = 1280, Height = 720,
      VideoFPS = 30, inspProfile = 100, inspLevel = 31, SampleRate = 48000, Channels = 2,
      GOPSeconds = 1, KeyframeReceived = True, InitialBitrate = 0\<rparr>"

record HTTPPolicy =
  AuthURL :: string
  StreamEndURL :: string
  APIKey :: string
  Version :: string
  Timeout :: int
  HTTPUserAgent :: string
  DebugSkip :: bool
  Config :: PolicyConfig

text \<open>
  What the outside world answers to \<open>Authorize\<close>: whether \<open>url.Parse\<close> accepts the
  auth URL, whether \<open>http.NewRequestWithContext\<close> succeeds, the outcome of
  \<open>client.Do\<close> (\<open>None\<close> for a transport error, else the status code and the body as
  read by \<open>io.ReadAll\<close>), and the outcome of \<open>json.Unmarshal\<close> of that body into a
  \<open>map[string]interface{}\<close> (\<open>None\<close> when it returns an error). The values of such a
  map are \<open>nil\<close>, \<open>bool\<close>, \<open>float64\<close>, \<open>string\<close>, arrays and objects.
\<close>

datatype jsonValue = JNull | JBool bool | JNumber rat | JString string | JArray | JObject

datatype authError = URLParseError | RequestError | TransportError | JSONError

record authEnv =
  urlParseOK :: bool
  newRequestOK :: bool
  httpResponse :: "(int \<times> string) option"
  jsonObject :: "(string \<rightharpoonup> jsonValue) option"

record authResponse =
  respStreamName :: string
  respAllowRewind :: "bool option"

definition ParseBool :: "string \<Rightarrow> bool option" where
  "ParseBool v =
     (if v \<in> set [''1'', ''t'', ''T'', ''TRUE'', ''true'', ''True''] then Some True
      else if v \<in> set [''0'', ''f'', ''F'', ''FALSE'', ''false'', ''False''] then Some False
      else None)"

fun parseBoolValue :: "jsonValue \<Rightarrow> bool option" where
  "parseBoolValue (JBool v) = Some v"
| "parseBoolValue (JString v) = ParseBool v"
| "parseBoolValue (JNumber v) = Some (v \<noteq> 0)"
| "parseBoolValue _ = None"

definition parseAuthResponse ::
  "string \<Rightarrow> (string \<rightharpoonup> jsonValue) option \<Rightarrow> authError + authResponse" where
  "parseAuthResponse data unmarshalled =
     (if length (TrimSpace data) = 0 then Inr \<lparr>respStreamName = [], respAllowRewind = None\<rparr>
      else case unmarshalled of
             None \<Rightarrow> Inl JSONError
           | Some raw \<Rightarrow>
               let resp0 = \<lparr>respStreamName = [], respAllowRewind = None\<rparr>;
                   resp1 = (case raw ''stream_name'' of
                              Some (JString name) \<Rightarrow> resp0\<lparr>respStreamName := name\<rparr>
                            | _ \<Rightarrow> resp0);
                   resp2 = (case raw ''allow_rewind'' of
                              Some v \<Rightarrow> (case parseBoolValue v of
                                            Some allow \<Rightarrow> resp1\<lparr>respAllowRewind := Some allow\<rparr>
                                          | None \<Rightarrow> resp1)
                            | None \<Rightarrow> resp1)
               in Inr resp2)"

text \<open>
  \<open>Authorize\<close> returns the result and the error. The request it builds (form fields,
  headers) goes out to the admission service and has no part in the value returned.
\<close>

definition Authorize :: "HTTPPolicy \<Rightarrow> authEnv \<Rightarrow> Result \<times> authError option" where
  "Authorize p env =
     (if DebugSkip p \<or> AuthURL p = [] then (emptyResult DecisionAccept, None)
      else if \<not> urlParseOK env
      then ((emptyResult DecisionReject)\<lparr>Reason := ReasonKeyInvalid,
                                           Message := ''auth url invalid''\<rparr>, Some URLParseError)
      else if \<not> newRequestOK env
      then ((emptyResult DecisionReject)\<lparr>Reason := ReasonKeyInvalid,
                                           Message := ''auth request failed''\<rparr>, Some RequestError)
      else case httpResponse env of
             None \<Rightarrow>
               ((emptyResult DecisionReject)\<lparr>Reason := ReasonKeyInvalid,
                                              Message := ''auth request error''\<rparr>,
                Some TransportError)
           | Some (status, bodyBytes) \<Rightarrow>
               if status \<noteq> 200
               then ((emptyResult DecisionReject)\<lparr>Reason := ReasonKeyInvalid,
                        Message := ''auth status '' @ showInt status\<rparr>, None)
               else (case parseAuthResponse bodyBytes (jsonObject env) of
                       Inl err \<Rightarrow>
                         ((emptyResult DecisionAccept)\<lparr>Message := ''auth response parse error''\<rparr>,
                          None)
                     | Inr authResp \<Rightarrow>
                         ((emptyResult DecisionAccept)\<lparr>StreamName := respStreamName authResp,
                                                        AllowRewind := respAllowRewind authResp\<rparr>,
                          None)))"

definition demoHTTPPolicy :: HTTPPolicy where
  "demoHTTPPolicy =
     \<lparr>AuthURL = ''https://example.test/auth'', StreamEndURL = [], APIKey = ''k'',
      Version = ''1'', Timeout = 5000000000, HTTPUserAgent = ''rtmp'', DebugSkip = False,
      Config = demoPolicy\<rparr>"

definition demoAuthEnv :: authEnv where
  "demoAuthEnv =
     \<lparr>urlParseOK = True, newRequestOK = True,
      httpResponse = Some (200, ''<html>ok</html>''), jsonObject = None\<rparr>"

section \<open>RTMP handler (pkg/rtmp)\<close>

fun keyParam :: "string list \<Rightarrow> string option" where
  "keyParam [] = None"
| "keyParam (pair # pairs) =
     (let parts = SplitN2 (CHR ''='') pair
      in if length parts = 2 \<and> parts ! 0 = ''key'' \<and> parts ! 1 \<noteq> []
         then Some (parts ! 1) else keyParam pairs)"

definition sanitizeStreamKey :: "string \<Rightarrow> string" where
  "sanitizeStreamKey name0 =
     (let name1 = TrimSpace name0;
          name2 = TrimSlash name1
      in if name2 = [] then []
         else (case IndexByte name2 (CHR ''?'') of
                 Some idx \<Rightarrow>
                   (let query = drop (idx + 1) name2;
                        name3 = take idx name2
                    in case keyParam (Split (CHR ''&'') query) of
                         Some v \<Rightarrow> v
                       | None \<Rightarrow> Base name3)
               | None \<Rightarrow> Base name2))"

definition sanitizeStreamID :: "string \<Rightarrow> string" where
  "sanitizeStreamID name0 =
     (let name1 = TrimSpace name0;
          name2 = TrimSlash name1
      in if name2 = [] then []
         else
           let name3 = (case IndexByte name2 (CHR ''?'') of
                          Some idx \<Rightarrow> take idx name2 | None \<Rightarrow> name2);
               base = Base name3
           in if base = ''.'' \<or> base = ''..'' then [] else base)"

section \<open>Playlist manager (pkg/hls)\<close>

record Part =
  part_URI :: string
  part_Duration :: rat

record Segment =
  Seq :: int
  URI :: string
  Duration :: rat
  Parts :: "Part list"
  Discontinuity :: bool
  Complete :: bool
  CreationTimeMS :: int

text \<open>The fields of type \<open>time.Duration\<close> hold nanoseconds.\<close>

record HlsConfig =
  SegmentDuration :: int
  PartDuration :: int
  PlaylistWindow :: int
  TargetDuration :: int
  HoldBack :: int
  PartHoldBack :: int
  KeepSegments :: int
  EnablePartial :: bool
  InitFilename :: string
  PlaylistName :: string

record PlaylistManager =
  cfg :: HlsConfig
  streamID :: string
  segments :: "Segment list"
  pendingDiscontinuity :: bool

text \<open>
  The operations that build the segment list. \<open>ensureSegment\<close> returns a pointer into
  the slice: here the index of the segment, \<open>findSeq\<close> being its search loop, which
  \<open>updateSegment\<close> runs again. \<open>AddPart\<close> and \<open>FinalizeSegment\<close> write through the
  pointer and then call \<open>updateSegment\<close>. \<open>time.Now().UnixMilli()\<close> is the parameter
  \<open>nowMS\<close>; the storage handle of the manager plays no part and is left out.
\<close>

definition New :: "HlsConfig \<Rightarrow> string \<Rightarrow> PlaylistManager" where
  "New c sid = \<lparr>cfg = c, streamID = sid, segments = [], pendingDiscontinuity = False\<rparr>"

definition MarkDiscontinuityNext :: "PlaylistManager \<Rightarrow> PlaylistManager" where
  "MarkDiscontinuityNext p = p\<lparr>pendingDiscontinuity := True\<rparr>"

fun findSeq :: "int \<Rightarrow> Segment list \<Rightarrow> nat option" where
  "findSeq n [] = None"
| "findSeq n (seg # segs) = (if Seq seg = n then Some 0 else map_option Suc (findSeq n segs))"

definition ensureSegment :: "int \<Rightarrow> int \<Rightarrow> PlaylistManager \<Rightarrow> nat \<times> PlaylistManager" where
  "ensureSegment nowMS segSeq p =
     (case findSeq segSeq (segments p) of
        Some i \<Rightarrow> (i, p)
      | None \<Rightarrow>
          let seg = \<lparr>Seq = segSeq, URI = [], Duration = 0, Parts = [], Discontinuity = False,
                     Complete = False, CreationTimeMS = nowMS\<rparr>;
              (seg, p) = (if pendingDiscontinuity p
                          then (seg\<lparr>Discontinuity := True\<rparr>, p\<lparr>pendingDiscontinuity := False\<rparr>)
                          else (seg, p))
          in (length (segments p), p\<lparr>segments := segments p @ [seg]\<rparr>))"

definition updateSegment :: "Segment \<Rightarrow> PlaylistManager \<Rightarrow> PlaylistManager" where
  "updateSegment seg p =
     (case findSeq (Seq seg) (segments p) of
        Some i \<Rightarrow> p\<lparr>segments := (segments p)[i := seg]\<rparr>
      | None \<Rightarrow> p)"

definition AddPart :: "int \<Rightarrow> int \<Rightarrow> string \<Rightarrow> int \<Rightarrow> PlaylistManager \<Rightarrow> PlaylistManager" where
  "AddPart nowMS segSeq partURI duration p =
     (let (i, p) = ensureSegment nowMS segSeq p;
          seg = segments p ! i;
          seg = seg\<lparr>Parts := Parts seg @ [\<lparr>part_URI = partURI, part_Duration = Seconds duration\<rparr>]\<rparr>;
          p = p\<lparr>segments := (segments p)[i := seg]\<rparr>
      in updateSegment seg p)"

definition FinalizeSegment :: "int \<Rightarrow> int \<Rightarrow> string \<Rightarrow> int \<Rightarrow> PlaylistManager \<Rightarrow> PlaylistManager" where
  "FinalizeSegment nowMS segSeq segURI duration p =
     (let (i, p) = ensureSegment nowMS segSeq p;
          seg = segments p ! i;
          seg = seg\<lparr>URI := segURI, Duration := Seconds duration, Complete := True\<rparr>;
          p = p\<lparr>segments := (segments p)[i := seg]\<rparr>
      in updateSegment seg p)"

text \<open>
  \<open>Prune\<close> returns the removed segments together with the updated manager; Go's
  \<open>nil\<close> slice is the empty list.
\<close>

definition Prune :: "PlaylistManager \<Rightarrow> Segment list \<times> PlaylistManager" where
  "Prune p =
     (if KeepSegments (cfg p) \<le> 0 \<or> int (length (segments p)) \<le> KeepSegments (cfg p)
      then ([], p)
      else
        let removeCount = int (length (segments p)) - KeepSegments (cfg p) in
        if removeCount \<le> 0 then ([], p)
        else (take (nat removeCount) (segments p),
              p\<lparr>segments := drop (nat removeCount) (segments p)\<rparr>))"

text \<open>Concrete playlist states used to evaluate the operations.\<close>

definition demoConfig :: HlsConfig where
  "demoConfig =
     \<lparr>SegmentDuration = 2000000000, PartDuration = 200000000,
      PlaylistWindow = 12000000000, TargetDuration = 2000000000,
      HoldBack = 6000000000, PartHoldBack = 600000000, KeepSegments = 2,
      EnablePartial = True, InitFilename = ''init.mp4'', PlaylistName = ''index.m3u8''\<rparr>"

definition demoSeg :: "int \<Rightarrow> Segment" where
  "demoSeg n =
     \<lparr>Seq = n, URI = ''seg.m4s'', Duration = 2, Parts = [],
      Discontinuity = False, Complete = True, CreationTimeMS = 0\<rparr>"

definition demoManager :: "int \<Rightarrow> Segment list \<Rightarrow> PlaylistManager" where
  "demoManager k segs =
     \<lparr>cfg = demoConfig\<lparr>KeepSegments := k\<rparr>, streamID = ''s'',
      segments = segs, pendingDiscontinuity = False\<rparr>"

text \<open>\<open>Render\<close>; \<open>math.Ceil\<close> is the ceiling.\<close>

definition renderPart :: "Part \<Rightarrow> string" where
  "renderPart pt =
     ''#EXT-X-PART:DURATION='' @ fmt3 (part_Duration pt) @ '',URI='' @ [dq] @ part_URI pt
       @ [dq] @ [nl]"

definition renderSegment :: "HlsConfig \<Rightarrow> Segment \<Rightarrow> string" where
  "renderSegment c seg =
     (if Discontinuity seg then ''#EXT-X-DISCONTINUITY'' @ [nl] else [])
     @ (if EnablePartial c then concat (map renderPart (Parts seg)) else [])
     @ (if Complete seg
        then ''#EXTINF:'' @ fmt3 (Duration seg) @ '','' @ [nl] @ URI seg @ [nl]
        else [])"

definition Render :: "PlaylistManager \<Rightarrow> string" where
  "Render p =
     ''#EXTM3U'' @ [nl]
     @ ''#EXT-X-VERSION:9'' @ [nl]
     @ ''#EXT-X-TARGETDURATION:'' @ showInt \<lceil>Seconds (TargetDuration (cfg p))\<rceil> @ [nl]
     @ ''#EXT-X-SERVER-CONTROL:CAN-BLOCK-RELOAD=YES,HOLD-BACK=''
         @ fmt3 (Seconds (HoldBack (cfg p))) @ '',PART-HOLD-BACK=''
         @ fmt3 (Seconds (PartHoldBack (cfg p))) @ [nl]
     @ (if EnablePartial (cfg p)
        then ''#EXT-X-PART-INF:PART-TARGET='' @ fmt3 (Seconds (PartDuration (cfg p))) @ [nl]
        else [])
     @ ''#EXT-X-MAP:URI='' @ [dq] @ InitFilename (cfg p) @ [dq] @ [nl]
     @ (case segments p of
          seg # _ \<Rightarrow> ''#EXT-X-MEDIA-SEQUENCE:'' @ showInt (Seq seg) @ [nl]
        | [] \<Rightarrow> ''#EXT-X-MEDIA-SEQUENCE:0'' @ [nl])
     @ concat (map (renderSegment (cfg p)) (segments p))"

text \<open>
  \<open>parsePartLine\<close>; \<open>partFields\<close> is its loop over the comma-separated fields.
\<close>

fun partFields :: "Part \<Rightarrow> string list \<Rightarrow> Part" where
  "partFields part [] = part"
| "partFields part (fld # flds) =
     (let kv = SplitN2 (CHR ''='') (TrimSpace fld)
      in if length kv \<noteq> 2 then partFields part flds
         else
           let key = kv ! 0; v = TrimQuotes (kv ! 1)
           in if key = ''DURATION''
              then (case ParseFloat v of
                      Some dur \<Rightarrow> partFields (part\<lparr>part_Duration := dur\<rparr>) flds
                    | None \<Rightarrow> partFields part flds)
              else if key = ''URI'' then partFields (part\<lparr>part_URI := v\<rparr>) flds
              else partFields part flds)"

definition parsePartLine :: "string \<Rightarrow> Part option" where
  "parsePartLine line =
     (let attrs = TrimSpace (TrimPrefix line ''#EXT-X-PART:'')
      in if attrs = [] then None
         else
           let part = partFields \<lparr>part_URI = [], part_Duration = 0\<rparr> (Split (CHR '','') attrs)
           in if part_URI part = [] then None else Some part)"

text \<open>
  \<open>parsePlaylist\<close>. The local variables of the function are the fields of
  \<open>parseState\<close>; \<open>time.Now().UnixMilli()\<close> is the parameter \<open>nowMS\<close>.
  \<open>createSegment\<close> is the closure of that name and returns the index of the new
  segment. \<open>selectSegment\<close> is the statement
  \<open>idx := currentIdx; if idx < 0 || segments[idx].Complete { idx = createSegment() }\<close>,
  which both the URI branch and the part branch execute; an index beyond the slice
  would panic (\<open>IndexOutOfRange\<close>). \<open>parseLine\<close> is the body of the loop over the
  lines, \<open>parseLines\<close> the loop, which stops at the first error. \<open>renumber\<close> numbers
  the segments from 0 when the playlist has no media-sequence tag.
\<close>

datatype parseError = BadMediaSequence | BadDuration | IndexOutOfRange

record parseState =
  psSegments :: "Segment list"
  psPendingDiscontinuity :: bool
  psCurrentIdx :: int
  psHasMediaSeq :: bool
  psNextSeq :: int
  psExpectURI :: bool
  psPendingDuration :: rat

definition createSegment :: "int \<Rightarrow> parseState \<Rightarrow> parseState \<times> int" where
  "createSegment nowMS st =
     (let seg = \<lparr>Seq = psNextSeq st, URI = [], Duration = 0, Parts = [],
                 Discontinuity = psPendingDiscontinuity st, Complete = False,
                 CreationTimeMS = nowMS\<rparr>
      in (st\<lparr>psNextSeq := u64 (psNextSeq st + 1), psPendingDiscontinuity := False,
             psSegments := psSegments st @ [seg]\<rparr>,
          int (length (psSegments st))))"

definition selectSegment :: "int \<Rightarrow> parseState \<Rightarrow> parseError + (parseState \<times> int)" where
  "selectSegment nowMS st =
     (let idx = psCurrentIdx st
      in if idx < 0 then Inr (createSegment nowMS st)
         else if idx \<ge> int (length (psSegments st)) then Inl IndexOutOfRange
         else if Complete (psSegments st ! nat idx) then Inr (createSegment nowMS st)
         else Inr (st, idx))"

definition parseLine :: "int \<Rightarrow> parseState \<Rightarrow> string \<Rightarrow> parseError + parseState" where
  "parseLine nowMS st raw =
     (let line = TrimSpace raw
      in if line = [] then Inr st
         else if psExpectURI st
         then (if prefix ''#'' line then Inr st
               else case selectSegment nowMS st of
                      Inl e \<Rightarrow> Inl e
                    | Inr (st1, idx) \<Rightarrow>
                        Inr (st1\<lparr>psSegments := (psSegments st1)
                                   [nat idx := (psSegments st1 ! nat idx)
                                      \<lparr>URI := line, Duration := psPendingDuration st1,
                                       Complete := True\<rparr>],
                                 psCurrentIdx := idx, psExpectURI := False\<rparr>))
         else if prefix ''#EXT-X-MEDIA-SEQUENCE:'' line
         then (case ParseUint (TrimSpace (TrimPrefix line ''#EXT-X-MEDIA-SEQUENCE:'')) of
                 None \<Rightarrow> Inl BadMediaSequence
               | Some seq \<Rightarrow> Inr (st\<lparr>psHasMediaSeq := True, psNextSeq := seq\<rparr>))
         else if line = ''#EXT-X-DISCONTINUITY''
         then Inr (st\<lparr>psPendingDiscontinuity := True\<rparr>)
         else if prefix ''#EXT-X-PART:'' line
         then (case parsePartLine line of
                 None \<Rightarrow> Inr st
               | Some part \<Rightarrow>
                   (case selectSegment nowMS st of
                      Inl e \<Rightarrow> Inl e
                    | Inr (st1, idx) \<Rightarrow>
                        Inr (st1\<lparr>psSegments := (psSegments st1)
                                   [nat idx := (psSegments st1 ! nat idx)
                                      \<lparr>Parts := Parts (psSegments st1 ! nat idx) @ [part]\<rparr>],
                                 psCurrentIdx := idx\<rparr>)))
         else if prefix ''#EXTINF:'' line
         then (let value0 = TrimSpace (TrimPrefix line ''#EXTINF:'');
                   value = (case IndexByte value0 (CHR '','') of
                              Some comma \<Rightarrow> take comma value0 | None \<Rightarrow> value0)
               in case ParseFloat value of
                    None \<Rightarrow> Inl BadDuration
                  | Some dur \<Rightarrow> Inr (st\<lparr>psPendingDuration := dur, psExpectURI := True\<rparr>))
         else Inr st)"

fun parseLines :: "int \<Rightarrow> parseState \<Rightarrow> string list \<Rightarrow> parseError + parseState" where
  "parseLines nowMS st [] = Inr st"
| "parseLines nowMS st (raw # lines) =
     (case parseLine nowMS st raw of
        Inl e \<Rightarrow> Inl e
      | Inr st' \<Rightarrow> parseLines nowMS st' lines)"

fun renumber :: "int \<Rightarrow> Segment list \<Rightarrow> Segment list" where
  "renumber n [] = []"
| "renumber n (seg # segs) = seg\<lparr>Seq := n\<rparr> # renumber (u64 (n + 1)) segs"

definition parsePlaylist ::
  "int \<Rightarrow> string \<Rightarrow> bool \<Rightarrow> parseError + (Segment list \<times> int)" where
  "parsePlaylist nowMS content dropIncomplete =
     (case parseLines nowMS
             \<lparr>psSegments = [], psPendingDiscontinuity = False, psCurrentIdx = - 1,
              psHasMediaSeq = False, psNextSeq = 0, psExpectURI = False,
              psPendingDuration = 0\<rparr>
             (Split nl content) of
        Inl e \<Rightarrow> Inl e
      | Inr st \<Rightarrow>
          let segs0 = psSegments st;
              segs1 = (if dropIncomplete \<and> segs0 \<noteq> [] \<and> \<not> Complete (last segs0)
                       then butlast segs0 else segs0);
              segs2 = (if \<not> psHasMediaSeq st \<and> segs1 \<noteq> [] then renumber 0 segs1 else segs1);
              lastSeq = (if segs2 \<noteq> [] then Seq (last segs2) else 0)
          in Inr (segs2, lastSeq))"

text \<open>Segments with parts, to evaluate rendering and parsing.\<close>

definition demoPart :: "string \<Rightarrow> Part" where
  "demoPart u = \<lparr>part_URI = u, part_Duration = 1 / 5\<rparr>"

definition demoSegP :: "int \<Rightarrow> bool \<Rightarrow> Segment" where
  "demoSegP n c =
     \<lparr>Seq = n, URI = (if c then ''seg.m4s'' else []), Duration = (if c then 2 else 0),
      Parts = [demoPart ''p0.m4s'', demoPart ''p1.m4s''],
      Discontinuity = (n = 5), Complete = c, CreationTimeMS = 7\<rparr>"

text \<open>
  Playlist states built by the operations of the manager: two segments finalised with
  the sequence numbers 1 and 3; a discontinuity marked and then the first part of
  segment 5 added. And two states given directly.
\<close>

definition gapManager :: PlaylistManager where
  "gapManager =
     FinalizeSegment 0 3 ''seg3.m4s'' 2000000000
       (FinalizeSegment 0 1 ''seg1.m4s'' 2000000000 (New demoConfig ''live''))"

definition pendingManager :: PlaylistManager where
  "pendingManager =
     AddPart 0 5 ''p0.m4s'' 200000000 (MarkDiscontinuityNext (New demoConfig ''live''))"


definition reloadManager :: PlaylistManager where
  "reloadManager =
     AddPart 7 6 ''p6-0.m4s'' 200000000
       (FinalizeSegment 7 5 ''seg5.m4s'' 2000000000
          (AddPart 7 5 ''p5-1.m4s'' 200000000
             (AddPart 7 5 ''p5-0.m4s'' 200000000
                (MarkDiscontinuityNext
                   (FinalizeSegment 7 4 ''seg4.m4s'' 2000000000
                      (AddPart 7 4 ''p4-0.m4s'' 200000000 (New demoConfig ''live'')))))))"

definition oddManager :: PlaylistManager where
  "oddManager = AddPart 7 1 ''p.m4s'' 2500000 (New demoConfig ''live'')"

definition mixedManager :: PlaylistManager where
  "mixedManager = demoManager 6 [demoSegP 4 True, demoSegP 5 False]"

subsection \<open>The playlist as a list of lines\<close>

text \<open>
  The playlist in the words of the specification: a header, one media-sequence line,
  and for each segment an optional discontinuity line, its part lines and, if it is
  complete, an \<open>#EXTINF\<close> line followed by its URI. \<open>Render\<close> is shown below to write
  exactly these lines, each followed by a line feed.
\<close>

datatype plLine =
  ExtM3U | Version | TargetDurationTag int | ServerControl rat rat | PartInf rat
  | MapTag string | MediaSequence int | DiscontinuityTag | PartTag rat string
  | ExtInf rat | UriLine string

fun lineText :: "plLine \<Rightarrow> string" where
  "lineText ExtM3U = ''#EXTM3U''"
| "lineText Version = ''#EXT-X-VERSION:9''"
| "lineText (TargetDurationTag n) = ''#EXT-X-TARGETDURATION:'' @ showInt n"
| "lineText (ServerControl h ph) =
     ''#EXT-X-SERVER-CONTROL:CAN-BLOCK-RELOAD=YES,HOLD-BACK='' @ fmt3 h
       @ '',PART-HOLD-BACK='' @ fmt3 ph"
| "lineText (PartInf d) = ''#EXT-X-PART-INF:PART-TARGET='' @ fmt3 d"
| "lineText (MapTag f) = ''#EXT-X-MAP:URI='' @ [dq] @ f @ [dq]"
| "lineText (MediaSequence n) = ''#EXT-X-MEDIA-SEQUENCE:'' @ showInt n"
| "lineText DiscontinuityTag = ''#EXT-X-DISCONTINUITY''"
| "lineText (PartTag d u) = ''#EXT-X-PART:DURATION='' @ fmt3 d @ '',URI='' @ [dq] @ u @ [dq]"
| "lineText (ExtInf d) = ''#EXTINF:'' @ fmt3 d @ '',''"
| "lineText (UriLine u) = u"

definition headerLines :: "HlsConfig \<Rightarrow> plLine list" where
  "headerLines c =
     [ExtM3U, Version, TargetDurationTag \<lceil>Seconds (TargetDuration c)\<rceil>,
      ServerControl (Seconds (HoldBack c)) (Seconds (PartHoldBack c))]
     @ (if EnablePartial c then [PartInf (Seconds (PartDuration c))] else [])
     @ [MapTag (InitFilename c)]"

definition partLines :: "Part list \<Rightarrow> plLine list" where
  "partLines ps = map (\<lambda>pt. PartTag (part_Duration pt) (part_URI pt)) ps"

definition segmentLines :: "HlsConfig \<Rightarrow> Segment \<Rightarrow> plLine list" where
  "segmentLines c seg =
     (if Discontinuity seg then [DiscontinuityTag] else [])
     @ (if EnablePartial c then map (\<lambda>pt. PartTag (part_Duration pt) (part_URI pt)) (Parts seg)
        else [])
     @ (if Complete seg then [ExtInf (Duration seg), UriLine (URI seg)] else [])"

definition renderLines :: "PlaylistManager \<Rightarrow> plLine list" where
  "renderLines p =
     headerLines (cfg p)
     @ [MediaSequence (case segments p of [] \<Rightarrow> 0 | seg # _ \<Rightarrow> Seq seg)]
     @ concat (map (segmentLines (cfg p)) (segments p))"

definition joinLines :: "plLine list \<Rightarrow> string" where
  "joinLines ls = concat (map (\<lambda>l. lineText l @ [nl]) ls)"

definition isMediaSequence :: "plLine \<Rightarrow> bool" where
  "isMediaSequence l = (case l of MediaSequence _ \<Rightarrow> True | _ \<Rightarrow> False)"

definition isSegmentEnd :: "plLine \<Rightarrow> bool" where
  "isSegmentEnd l = (case l of ExtInf _ \<Rightarrow> True | UriLine _ \<Rightarrow> True | _ \<Rightarrow> False)"

subsection \<open>What a rendered playlist is reloaded to\<close>

text \<open>
  A duration \<open>d\<close> is written as \<open>decimal3 d\<close>, its exact value rounded to three
  decimals, and comes back as \<open>round3 d\<close>, the \<open>float64\<close> nearest to that; the creation
  time is the time of parsing. \<open>reloadable\<close> collects the conditions under which the
  text of \<open>Render\<close> determines the segment list: the durations are not negative and
  below 2^62 seconds (far inside the range of the format); the init file name has no
  line feed; the
  sequence numbers are consecutive \<open>uint64\<close> values (the playlist carries the first one
  only); every segment but possibly the last is complete; partial segments are enabled
  or no segment has parts; a segment URI is not empty, has no line feed and no white
  space at its ends and does not start with \<open>#\<close>; a part URI is not empty, has no line
  feed and no comma and neither starts nor ends with a double quote; and, when
  incomplete segments are kept, an incomplete segment has a part, no URI and duration 0,
  as \<open>AddPart\<close> creates it.
\<close>

definition decimal3 :: "rat \<Rightarrow> rat" where
  "decimal3 d = (if d < 0 then - 1 else 1) * (of_int (roundHalfEven (\<bar>d\<bar> * 1000)) / 1000)"

definition round3 :: "rat \<Rightarrow> rat" where
  "round3 d = float64 (decimal3 d)"

definition plainDuration :: "rat \<Rightarrow> bool" where
  "plainDuration d = (0 \<le> d \<and> d < 2 ^ 62)"

definition roundPart :: "Part \<Rightarrow> Part" where
  "roundPart pt = pt\<lparr>part_Duration := round3 (part_Duration pt)\<rparr>"

definition roundSegment :: "int \<Rightarrow> Segment \<Rightarrow> Segment" where
  "roundSegment now seg =
     seg\<lparr>Duration := round3 (Duration seg), Parts := map roundPart (Parts seg),
         CreationTimeMS := now\<rparr>"

definition cleanPartURI :: "string \<Rightarrow> bool" where
  "cleanPartURI u =
     (u \<noteq> [] \<and> nl \<notin> set u \<and> CHR '','' \<notin> set u \<and> hd u \<noteq> dq \<and> last u \<noteq> dq)"

definition cleanSegmentURI :: "string \<Rightarrow> bool" where
  "cleanSegmentURI u = (u \<noteq> [] \<and> nl \<notin> set u \<and> TrimSpace u = u \<and> hd u \<noteq> CHR ''#'')"

definition cleanSegment :: "HlsConfig \<Rightarrow> Segment \<Rightarrow> bool" where
  "cleanSegment cf seg =
     ((Complete seg \<longrightarrow> cleanSegmentURI (URI seg))
      \<and> (\<forall>pt \<in> set (Parts seg). cleanPartURI (part_URI pt))
      \<and> (EnablePartial cf \<or> Parts seg = []))"

fun consecutiveFrom :: "int \<Rightarrow> Segment list \<Rightarrow> bool" where
  "consecutiveFrom n [] = True"
| "consecutiveFrom n (seg # segs) = (Seq seg = n \<and> consecutiveFrom (u64 (n + 1)) segs)"

definition reloadable :: "HlsConfig \<Rightarrow> Segment list \<Rightarrow> bool \<Rightarrow> bool" where
  "reloadable cf segs dropIncomplete =
     (nl \<notin> set (InitFilename cf)
      \<and> (segs \<noteq> [] \<longrightarrow> 0 \<le> Seq (hd segs) \<and> Seq (hd segs) < 2 ^ 64
                        \<and> consecutiveFrom (Seq (hd segs)) segs)
      \<and> list_all Complete (butlast segs)
      \<and> (\<forall>seg \<in> set segs. cleanSegment cf seg)
      \<and> (\<forall>seg \<in> set segs. plainDuration (Duration seg)
             \<and> (\<forall>pt \<in> set (Parts seg). plainDuration (part_Duration pt)))
      \<and> (\<not> dropIncomplete \<longrightarrow>
           (\<forall>seg \<in> set segs. \<not> Complete seg \<longrightarrow>
              Parts seg \<noteq> [] \<and> URI seg = [] \<and> Duration seg = 0)))"

definition reloaded :: "int \<Rightarrow> Segment list \<Rightarrow> bool \<Rightarrow> Segment list" where
  "reloaded now segs dropIncomplete =
     map (roundSegment now)
       (if dropIncomplete \<and> segs \<noteq> [] \<and> \<not> Complete (last segs) then butlast segs else segs)"

subsection \<open>Notions used in the proofs\<close>

text \<open>
  The characters of formatted numbers; the first and last bytes of the white-space
  runes; the header lines; the state of the parser between two lines, with the fields
  that vary; a segment as \<open>createSegment\<close> makes it; the parser's segment list after
  the last line.
\<close>

definition numChar :: "char \<Rightarrow> bool" where
  "numChar c = (isDigit c \<or> c = CHR ''-'' \<or> c = CHR ''.'')"

definition spaceFirst :: "char set" where "spaceFirst = hd ` set spaceRunes"

definition spaceLast :: "char set" where "spaceLast = last ` set spaceRunes"

definition isHeaderLine :: "plLine \<Rightarrow> bool" where
  "isHeaderLine l = (case l of ExtM3U \<Rightarrow> True | Version \<Rightarrow> True | TargetDurationTag _ \<Rightarrow> True
                      | ServerControl _ _ \<Rightarrow> True | PartInf _ \<Rightarrow> True | MapTag _ \<Rightarrow> True
                      | _ \<Rightarrow> False)"

definition mkState :: "Segment list \<Rightarrow> bool \<Rightarrow> int \<Rightarrow> int \<Rightarrow> bool \<Rightarrow> rat \<Rightarrow> parseState" where
  "mkState segs pdisc idx n ex pdur =
     \<lparr>psSegments = segs, psPendingDiscontinuity = pdisc, psCurrentIdx = idx,
      psHasMediaSeq = True, psNextSeq = n, psExpectURI = ex, psPendingDuration = pdur\<rparr>"

definition newSegment :: "int \<Rightarrow> int \<Rightarrow> bool \<Rightarrow> Segment" where
  "newSegment now n b =
     \<lparr>Seq = n, URI = [], Duration = 0, Parts = [], Discontinuity = b, Complete = False,
      CreationTimeMS = now\<rparr>"

definition expectedSegment :: "int \<Rightarrow> int \<Rightarrow> Segment \<Rightarrow> Segment" where
  "expectedSegment now n seg =
     \<lparr>Seq = n, URI = URI seg, Duration = round3 (Duration seg),
      Parts = map roundPart (Parts seg), Discontinuity = Discontinuity seg,
      Complete = Complete seg, CreationTimeMS = now\<rparr>"

definition lineOK :: "plLine \<Rightarrow> bool" where
  "lineOK l = (case l of MapTag f \<Rightarrow> nl \<notin> set f | PartTag d u \<Rightarrow> nl \<notin> set u
               | UriLine u \<Rightarrow> nl \<notin> set u | _ \<Rightarrow> True)"

definition initialState :: parseState where
  "initialState =
     \<lparr>psSegments = [], psPendingDiscontinuity = False, psCurrentIdx = - 1,
      psHasMediaSeq = False, psNextSeq = 0, psExpectURI = False, psPendingDuration = 0\<rparr>"

definition parsedSegments :: "int \<Rightarrow> Segment list \<Rightarrow> Segment list" where
  "parsedSegments now segs =
     (if segs = [] then []
      else if Complete (last segs) then map (roundSegment now) segs
      else map (roundSegment now) (butlast segs)
           @ (if Parts (last segs) = [] then []
              else [(newSegment now (Seq (last segs)) (Discontinuity (last segs)))
                      \<lparr>Parts := map roundPart (Parts (last segs))\<rparr>]))"


section \<open>Packager (pkg/packager)\<close>

text \<open>
  \<open>pendingSample\<close> and \<open>trackState\<close> are declared identically in the packager and
  in the archive recorder. \<close>

record pendingSample =
  dtsMS :: int
  ctsMS :: int
  data :: "byte list"
  isKey :: bool

record trackState =
  timescale :: int
  pending :: "pendingSample option"
  lastDurMS :: int
  defaultDurMS :: int
  lastDTSMS :: int
  hasStarted :: bool
  trackID :: int
  sampleIsVideo :: bool

text \<open>
  \<open>util.AACConfig\<close>; the field names carry the prefix \<open>aac\<close>.
\<close>

record AACConfig =
  aacASC :: "byte list"
  aacObjectType :: byte
  aacSampleRate :: int
  aacChannels :: int

text \<open>
  \<open>util.EqualAVCConfig\<close>: after the comparison of the lengths its two loops compare
  the parameter sets one by one.
\<close>

definition EqualAVCConfig :: "AVCConfig \<Rightarrow> AVCConfig \<Rightarrow> bool" where
  "EqualAVCConfig a b =
     (if Profile a \<noteq> Profile b \<or> Compatibility a \<noteq> Compatibility b \<or> Level a \<noteq> Level b
         \<or> LengthSize a \<noteq> LengthSize b
      then False
      else if length (SPS a) \<noteq> length (SPS b) \<or> length (PPS a) \<noteq> length (PPS b) then False
      else if \<not> list_all2 (=) (SPS a) (SPS b) then False
      else if \<not> list_all2 (=) (PPS a) (PPS b) then False
      else True)"

text \<open>
  The packager, without its output side: the fields \<open>cfg\<close>, \<open>storage\<close>, \<open>streamID\<close>,
  \<open>playlist\<close>, \<open>rewind\<close>, \<open>lastSegmentSeq\<close>, \<open>fragmentSeq\<close>, \<open>currentPart\<close>,
  \<open>currentSegment\<close> and \<open>pendingDiscontinuity\<close>, which \<open>appendToPart\<close>,
  \<open>finalizePart\<close>, \<open>finalizeSegment\<close> and \<open>ensureSegmentBuilder\<close> read and write, are
  left out. None of these four functions writes a field kept here.
\<close>

record Packager =
  videoID :: int
  audioID :: int
  videoTS :: int
  audioTS :: int
  avcConfig :: AVCConfig
  aacConfig :: AACConfig
  initWritten :: bool
  started :: bool
  startTSMS :: int
  segmentOffset :: int
  partDurationMS :: int
  segmentDurationMS :: int
  videoState :: trackState
  audioState :: trackState

text \<open>
  What a call receives from the parts that are not modelled: \<open>ioLastSegmentSeq\<close> is the
  value of the field \<open>lastSegmentSeq\<close> when \<open>reset\<close> reads it, after its calls of
  \<open>finalizePart\<close> and \<open>finalizeSegment\<close>; \<open>ioInit\<close> says how far \<open>maybeWriteInit\<close>
  gets: \<open>SetAVCDescriptor\<close> fails, encoding or writing the init segment fails, or the
  init segment is written; \<open>ioInfInt64\<close> is the result of the conversion
  \<open>int64(+Inf)\<close>, which Go leaves to the implementation; \<open>ioAppendFails\<close> says that
  the first call of \<open>appendToPart\<close> returns an error, which it does when a part or a
  segment cannot be written.
\<close>

datatype initOutcome = DescriptorError | WriteError | InitOK

record pkgIO =
  ioLastSegmentSeq :: int
  ioInit :: initOutcome
  ioInfInt64 :: int
  ioAppendFails :: bool

text \<open>
  \<open>New\<close> of the packager. The durations are \<open>time.Duration\<close> values (nanoseconds);
  \<open>resumed\<close> is the last sequence number of an existing playlist that
  \<open>resumeFromExisting\<close> finds, if any.
\<close>

definition emptyAVCConfig :: AVCConfig where
  "emptyAVCConfig = \<lparr>Profile = 0, Compatibility = 0, Level = 0, LengthSize = 0,
                       SPS = [], PPS = []\<rparr>"

definition emptyAACConfig :: AACConfig where
  "emptyAACConfig = \<lparr>aacASC = [], aacObjectType = 0, aacSampleRate = 0, aacChannels = 0\<rparr>"

definition newTrack :: "bool \<Rightarrow> trackState" where
  "newTrack v = \<lparr>timescale = 0, pending = None, lastDurMS = 0, defaultDurMS = 0,
                 lastDTSMS = 0, hasStarted = False, trackID = 0, sampleIsVideo = v\<rparr>"

definition newPackager :: "int \<Rightarrow> int \<Rightarrow> int option \<Rightarrow> Packager" where
  "newPackager segmentDuration partDuration resumed =
     \<lparr>videoID = 0, audioID = 0, videoTS = 90000, audioTS = 0,
      avcConfig = emptyAVCConfig, aacConfig = emptyAACConfig,
      initWritten = False, started = False, startTSMS = 0,
      segmentOffset = (case resumed of Some lastSeq \<Rightarrow> lastSeq | None \<Rightarrow> 0),
      partDurationMS = i64 (partDuration sdiv 1000000),
      segmentDurationMS = i64 (segmentDuration sdiv 1000000),
      videoState = newTrack True, audioState = newTrack False\<rparr>"

text \<open>Conversions between milliseconds and a track's timescale.\<close>

definition timescaleToMS :: "int \<Rightarrow> int \<Rightarrow> int" where
  "timescaleToMS v ts = (if ts = 0 then 0 else i64 (i64 (u64 (v * 1000)) sdiv ts))"

definition msToTimescale64 :: "int \<Rightarrow> int \<Rightarrow> int" where
  "msToTimescale64 ms ts = (if ms \<le> 0 then 0 else u64 (i64 (i64 (ms * ts) sdiv 1000)))"

text \<open>
  \<open>computePartIndex\<close> returns \<open>(partIdx, segSeq, partStartMS)\<close>. Both divisors are
  configuration values; a zero divisor panics in Go (\<open>None\<close>). The conversion
  \<open>int(...)\<close> of an \<open>int64\<close> is the identity.
\<close>

definition computePartIndex :: "Packager \<Rightarrow> int \<Rightarrow> bool \<Rightarrow> (int \<times> int \<times> int) option" where
  "computePartIndex p decodeTime isVideo =
     (let tsMS = (if isVideo then timescaleToMS decodeTime (videoTS p)
                  else timescaleToMS decodeTime (audioTS p));
          rel0 = i64 (tsMS - startTSMS p);
          rel = (if rel0 < 0 then 0 else rel0)
      in if partDurationMS p = 0 then None
         else
           let partsPerSeg0 = i64 (segmentDurationMS p sdiv partDurationMS p);
               partsPerSeg = (if partsPerSeg0 \<le> 0 then 1 else partsPerSeg0);
               globalPartIdx = i64 (rel sdiv partDurationMS p)
           in if segmentDurationMS p = 0 then None
              else
                let segIdx = i64 (rel sdiv segmentDurationMS p);
                    segSeq = u64 (u64 (u64 segIdx + 1) + segmentOffset p);
                    segStartMS = i64 (startTSMS p + i64 (segIdx * segmentDurationMS p));
                    partIdx0 = i64 (globalPartIdx - i64 (segIdx * partsPerSeg));
                    partIdx = (if partIdx0 < 0 then 0 else partIdx0);
                    partStartMS = i64 (segStartMS + i64 (partIdx * partDurationMS p))
                in Some (partIdx, segSeq, partStartMS))"

text \<open>
  The part of a released sample: \<open>buildFullSample\<close> gives the sample the decode time
  \<open>msToTimescale64(sample.dtsMS, state.timescale)\<close>, and \<open>appendToPart\<close> calls
  \<open>computePartIndex\<close> with this decode time and \<open>ts.trackID == p.videoID\<close>, where
  \<open>ts.trackID\<close> is \<open>state.trackID\<close>.
\<close>

definition samplePartIndex ::
  "Packager \<Rightarrow> trackState \<Rightarrow> pendingSample \<Rightarrow> (int \<times> int \<times> int) option" where
  "samplePartIndex p st sample =
     computePartIndex p (msToTimescale64 (dtsMS sample) (timescale st)) (trackID st = videoID p)"

text \<open>
  The partial-segment assignment in the words of the specification, for segment size
  \<open>S\<close>, part size \<open>P\<close>, start timestamp, segment offset and a timestamp \<open>dts\<close>: the
  triple \<open>(part_idx, seg_seq, part_start_ms)\<close>.
\<close>

definition partIndexSpec :: "int \<Rightarrow> int \<Rightarrow> int \<Rightarrow> int \<Rightarrow> int \<Rightarrow> int \<times> int \<times> int" where
  "partIndexSpec S P start_ts segment_offset dts =
     (let N = max 1 (S div P);
          rel = max 0 (dts - start_ts);
          part_idx = max 0 (rel div P - (rel div S) * N)
      in (part_idx, rel div S + 1 + segment_offset, (start_ts + (rel div S) * S) + part_idx * P))"

text \<open>
  \<open>maybeWriteInit\<close> builds and writes the init segment. The first track of an empty
  init segment gets the track id 1, the second 2.
\<close>

definition maybeWriteInit :: "initOutcome \<Rightarrow> Packager \<Rightarrow> Packager" where
  "maybeWriteInit out p =
     (if SPS (avcConfig p) = [] \<or> PPS (avcConfig p) = [] then p
      else if initWritten p then p
      else if out = DescriptorError then p
      else
        let p1 = p\<lparr>videoID := 1,
                   videoState := (videoState p)\<lparr>trackID := 1, timescale := videoTS p,
                                                defaultDurMS := 33\<rparr>\<rparr>;
            p2 = (if aacSampleRate (aacConfig p1) > 0
                  then p1\<lparr>audioTS := u32 (aacSampleRate (aacConfig p1)), audioID := 2,
                          audioState := (audioState p1)
                             \<lparr>trackID := 2, timescale := u32 (aacSampleRate (aacConfig p1))\<rparr>\<rparr>
                  else p1)
        in if out = WriteError then p2 else p2\<lparr>initWritten := True\<rparr>)"

text \<open>
  \<open>reset\<close> first finalizes the current part and segment (not modelled) and then reads
  \<open>lastSegmentSeq\<close>.
\<close>

definition reset :: "bool \<Rightarrow> pkgIO \<Rightarrow> Packager \<Rightarrow> Packager" where
  "reset reinit io p =
     (let p1 = p\<lparr>segmentOffset := ioLastSegmentSeq io,
                 startTSMS := 0,
                 started := False,
                 videoState := (videoState p)\<lparr>pending := None\<rparr>,
                 audioState := (audioState p)\<lparr>pending := None\<rparr>,
                 initWritten := False,
                 videoID := 0,
                 audioID := 0\<rparr>
      in if reinit then maybeWriteInit (ioInit io) p1 else p1)"

text \<open>
  \<open>UpdateVideoConfig\<close> and \<open>UpdateAudioConfig\<close>. \<open>math.Round\<close> rounds half away from
  zero; the quotient \<open>1024.0 * 1000.0 / float64(cfg.SampleRate)\<close> is \<open>+Inf\<close> for the
  sample rate 0.
\<close>

definition roundHalfAway :: "rat \<Rightarrow> int" where
  "roundHalfAway x = (if 0 \<le> x then \<lfloor>x + 1 / 2\<rfloor> else - \<lfloor>- x + 1 / 2\<rfloor>)"

definition UpdateVideoConfig :: "pkgIO \<Rightarrow> AVCConfig \<Rightarrow> Packager \<Rightarrow> Packager" where
  "UpdateVideoConfig io c p =
     (let p1 = (if initWritten p \<and> \<not> EqualAVCConfig (avcConfig p) c then reset False io p
                else p);
          p2 = p1\<lparr>avcConfig := c, videoState := (videoState p1)\<lparr>sampleIsVideo := True\<rparr>\<rparr>
      in maybeWriteInit (ioInit io) p2)"

definition UpdateAudioConfig :: "pkgIO \<Rightarrow> AACConfig \<Rightarrow> Packager \<Rightarrow> Packager" where
  "UpdateAudioConfig io c p =
     (let p1 = (if initWritten p
                   \<and> ((aacSampleRate (aacConfig p) \<noteq> 0
                        \<and> aacSampleRate (aacConfig p) \<noteq> aacSampleRate c)
                       \<or> audioID p = 0)
                then reset False io p else p);
          d = (if aacSampleRate c = 0 then ioInfInt64 io
               else roundHalfAway (float64 (1024000 / float64 (of_int (aacSampleRate c)))));
          p2 = p1\<lparr>aacConfig := c, audioTS := u32 (aacSampleRate c),
                  audioState := (audioState p1)\<lparr>defaultDurMS := (if d = 0 then 20 else d)\<rparr>\<rparr>
      in maybeWriteInit (ioInit io) p2)"

text \<open>
  \<open>ingestSample\<close>, called with a pointer to the state of one track, which \<open>isVideo\<close>
  selects here. It returns the released sample, if any, as the pending sample and the
  duration that it passes to \<open>buildFullSample\<close>; its error result is always \<open>nil\<close>.
  \<open>jumpDetected\<close> is the condition of its second block.
\<close>

definition getState :: "bool \<Rightarrow> Packager \<Rightarrow> trackState" where
  "getState isVideo p = (if isVideo then videoState p else audioState p)"

definition setState :: "bool \<Rightarrow> trackState \<Rightarrow> Packager \<Rightarrow> Packager" where
  "setState isVideo st p = (if isVideo then p\<lparr>videoState := st\<rparr> else p\<lparr>audioState := st\<rparr>)"

definition jumpDetected :: "trackState \<Rightarrow> pendingSample \<Rightarrow> bool" where
  "jumpDetected st sample =
     (hasStarted st \<and> lastDTSMS st \<noteq> 0
      \<and> absInt64 (i64 (dtsMS sample - lastDTSMS st)) > 5000)"

definition ingestSample ::
  "pkgIO \<Rightarrow> bool \<Rightarrow> Packager \<Rightarrow> pendingSample
     \<Rightarrow> Packager \<times> (pendingSample \<times> int) option" where
  "ingestSample io isVideo p sample0 =
     (let st0 = getState isVideo p;
          st1 = (if timescale st0 = 0
                 then (if sampleIsVideo st0
                       then st0\<lparr>timescale := videoTS p, trackID := videoID p,
                                defaultDurMS := (if defaultDurMS st0 = 0 then 33
                                                 else defaultDurMS st0)\<rparr>
                       else st0\<lparr>timescale := audioTS p, trackID := audioID p\<rparr>)
                 else st0);
          p1 = setState isVideo st1 p;
          p2 = (if jumpDetected st1 sample0
                then (let q = reset True io p1
                      in setState isVideo
                           ((getState isVideo q)\<lparr>pending := None, hasStarted := False,
                                                  lastDTSMS := 0\<rparr>) q)
                else p1);
          st2 = getState isVideo p2;
          sample = (case pending st2 of
                      Some pd \<Rightarrow>
                        (if hasStarted st2 \<and> dtsMS sample0 \<le> dtsMS pd
                         then sample0\<lparr>dtsMS := i64 (dtsMS pd + maxInt64 (lastDurMS st2) 1)\<rparr>
                         else sample0)
                    | None \<Rightarrow> sample0)
      in case pending st2 of
           None \<Rightarrow>
             (setState isVideo
                (st2\<lparr>pending := Some sample, hasStarted := True,
                     lastDTSMS := dtsMS sample\<rparr>) p2, None)
         | Some pd \<Rightarrow>
             let d0 = i64 (dtsMS sample - dtsMS pd);
                 d1 = (if d0 \<le> 0 then lastDurMS st2 else d0);
                 d2 = (if d1 \<le> 0 then defaultDurMS st2 else d1);
                 durMS = (if d2 \<le> 0 then 1 else d2)
             in (setState isVideo
                   (st2\<lparr>lastDurMS := durMS, lastDTSMS := dtsMS sample,
                        pending := Some sample\<rparr>) p2,
                 Some (pd, durMS)))"

text \<open>The first block of \<open>ingestSample\<close> (timescale set-up), named for the proofs.\<close>

definition prepTrack :: "Packager \<Rightarrow> trackState \<Rightarrow> trackState" where
  "prepTrack p st0 =
     (if timescale st0 = 0
      then (if sampleIsVideo st0
            then st0\<lparr>timescale := videoTS p, trackID := videoID p,
                     defaultDurMS := (if defaultDurMS st0 = 0 then 33 else defaultDurMS st0)\<rparr>
            else st0\<lparr>timescale := audioTS p, trackID := audioID p\<rparr>)
      else st0)"

text \<open>
  \<open>addSample\<close>. \<open>latch\<close> is its call of \<open>ensureStart\<close> with the statement that
  follows, which raises a timestamp below the start timestamp to it. The call of
  \<open>appendToPart\<close> for the released sample writes no field kept here.
\<close>

definition ensureStart :: "int \<Rightarrow> Packager \<Rightarrow> Packager" where
  "ensureStart tsMS p = (if started p then p else p\<lparr>started := True, startTSMS := tsMS\<rparr>)"

definition latch :: "Packager \<Rightarrow> pendingSample \<Rightarrow> Packager \<times> pendingSample" where
  "latch p sample =
     (let p1 = ensureStart (dtsMS sample) p
      in (p1, if dtsMS sample < startTSMS p1 then sample\<lparr>dtsMS := startTSMS p1\<rparr> else sample))"

definition accepts :: "Packager \<Rightarrow> bool \<Rightarrow> bool" where
  "accepts p isVideo = (initWritten p \<and> (isVideo \<or> aacSampleRate (aacConfig p) \<noteq> 0))"

definition addSample ::
  "pkgIO \<Rightarrow> bool \<Rightarrow> pendingSample \<Rightarrow> Packager \<Rightarrow> Packager \<times> (pendingSample \<times> int) option" where
  "addSample io isVideo sample p =
     (if \<not> initWritten p then (p, None)
      else if \<not> isVideo \<and> aacSampleRate (aacConfig p) = 0 then (p, None)
      else case latch p sample of (p1, sample1) \<Rightarrow> ingestSample io isVideo p1 sample1)"

definition AddVideoSample ::
  "pkgIO \<Rightarrow> int \<Rightarrow> int \<Rightarrow> byte list \<Rightarrow> bool \<Rightarrow> Packager
     \<Rightarrow> Packager \<times> (pendingSample \<times> int) option" where
  "AddVideoSample io tsMS cts d k p =
     addSample io True \<lparr>dtsMS = tsMS, ctsMS = cts, data = d, isKey = k\<rparr> p"

definition AddAudioSample ::
  "pkgIO \<Rightarrow> int \<Rightarrow> byte list \<Rightarrow> Packager \<Rightarrow> Packager \<times> (pendingSample \<times> int) option" where
  "AddAudioSample io tsMS d p =
     addSample io False \<lparr>dtsMS = tsMS, ctsMS = 0, data = d, isKey = False\<rparr> p"

text \<open>
  \<open>flushTrack\<close> and \<open>Flush\<close>, which returns after the video track when
  \<open>flushTrack\<close> returns the error of \<open>appendToPart\<close> for it. The results are the
  samples released, each with the flag of its track.
\<close>

definition flushTrack :: "bool \<Rightarrow> Packager \<Rightarrow> Packager \<times> (pendingSample \<times> int) option" where
  "flushTrack isVideo p =
     (let st = getState isVideo p
      in case pending st of
           None \<Rightarrow> (p, None)
         | Some pd \<Rightarrow>
             if \<not> initWritten p then (p, None)
             else
               let d0 = lastDurMS st;
                   d1 = (if d0 \<le> 0 then defaultDurMS st else d0);
                   durMS = (if d1 \<le> 0 then 1 else d1)
               in (setState isVideo (st\<lparr>pending := None\<rparr>) p, Some (pd, durMS)))"

definition Flush :: "pkgIO \<Rightarrow> Packager \<Rightarrow> Packager \<times> (bool \<times> pendingSample \<times> int) list" where
  "Flush io p =
     (case flushTrack True p of
        (p1, Some r1) \<Rightarrow>
          if ioAppendFails io then (p1, [(True, r1)])
          else (case flushTrack False p1 of
                  (p2, Some r2) \<Rightarrow> (p2, [(True, r1), (False, r2)])
                | (p2, None) \<Rightarrow> (p2, [(True, r1)]))
      | (p1, None) \<Rightarrow>
          (case flushTrack False p1 of
             (p2, Some r2) \<Rightarrow> (p2, [(False, r2)])
           | (p2, None) \<Rightarrow> (p2, [])))"

text \<open>
  The calls that a session makes on its packager, all exported functions but \<open>New\<close>,
  and their effect in sequence. \<open>step\<close> returns the samples that the call releases,
  each with the flag of its track. \<open>released v p es\<close> lists the samples that the track
  \<open>v\<close> (video if \<open>v\<close>, else audio) releases from its lookahead during the calls \<open>es\<close>,
  in order.
\<close>

datatype event =
  VideoSample pkgIO int int "byte list" bool
  | AudioSample pkgIO int "byte list"
  | VideoConfig pkgIO AVCConfig
  | AudioConfig pkgIO AACConfig
  | FlushCall pkgIO

definition ofTrack :: "bool \<Rightarrow> (bool \<times> pendingSample \<times> int) list \<Rightarrow> (pendingSample \<times> int) list" where
  "ofTrack v out = map snd (filter (\<lambda>x. fst x = v) out)"

fun step :: "event \<Rightarrow> Packager \<Rightarrow> Packager \<times> (bool \<times> pendingSample \<times> int) list" where
  "step (VideoSample io tsMS cts d k) p =
     (case AddVideoSample io tsMS cts d k p of
        (p', Some r) \<Rightarrow> (p', [(True, r)])
      | (p', None) \<Rightarrow> (p', []))"
| "step (AudioSample io tsMS d) p =
     (case AddAudioSample io tsMS d p of
        (p', Some r) \<Rightarrow> (p', [(False, r)])
      | (p', None) \<Rightarrow> (p', []))"
| "step (VideoConfig io c) p = (UpdateVideoConfig io c p, [])"
| "step (AudioConfig io c) p = (UpdateAudioConfig io c p, [])"
| "step (FlushCall io) p = Flush io p"

fun released :: "bool \<Rightarrow> Packager \<Rightarrow> event list \<Rightarrow> (pendingSample \<times> int) list" where
  "released v p [] = []"
| "released v p (e # es) = ofTrack v (snd (step e p)) @ released v (fst (step e p)) es"

text \<open>
  A sample enters an empty lookahead when \<open>addSample\<close> accepts it and \<open>ingestSample\<close>
  finds no pending sample or takes the jump branch, which discards the pending sample:
  then the sample becomes the pending one as it is. \<open>entering v e p\<close> is the timestamp
  with which the sample of the call \<open>e\<close> enters the empty lookahead of the track \<open>v\<close>,
  if it does. \<open>restartsAbove v prev p es\<close> holds when during the calls \<open>es\<close> every sample
  that enters the empty lookahead of \<open>v\<close> has a timestamp above that of the sample
  that \<open>v\<close> released last (\<open>prev\<close> at the start, if any).
\<close>

fun eventSample :: "event \<Rightarrow> (bool \<times> int) option" where
  "eventSample (VideoSample io tsMS cts d k) = Some (True, tsMS)"
| "eventSample (AudioSample io tsMS d) = Some (False, tsMS)"
| "eventSample (VideoConfig io c) = None"
| "eventSample (AudioConfig io c) = None"
| "eventSample (FlushCall io) = None"

definition entering :: "bool \<Rightarrow> event \<Rightarrow> Packager \<Rightarrow> int option" where
  "entering v e p =
     (case eventSample e of
        None \<Rightarrow> None
      | Some (w, tsMS) \<Rightarrow>
          if w \<noteq> v \<or> \<not> accepts p v then None
          else
            let p1 = ensureStart tsMS p;
                t = (if tsMS < startTSMS p1 then startTSMS p1 else tsMS);
                st = getState v p1
            in if pending st = None
                  \<or> (hasStarted st \<and> lastDTSMS st \<noteq> 0 \<and> \<bar>t - lastDTSMS st\<bar> > 5000)
               then Some t else None)"

definition lastReleased ::
  "bool \<Rightarrow> int option \<Rightarrow> (bool \<times> pendingSample \<times> int) list \<Rightarrow> int option" where
  "lastReleased v prev out =
     (if ofTrack v out = [] then prev else Some (dtsMS (fst (last (ofTrack v out)))))"

fun restartsAbove :: "bool \<Rightarrow> int option \<Rightarrow> Packager \<Rightarrow> event list \<Rightarrow> bool" where
  "restartsAbove v prev p [] = True"
| "restartsAbove v prev p (e # es) =
     ((case (entering v e p, prev) of (Some t, Some m) \<Rightarrow> m < t | _ \<Rightarrow> True)
      \<and> restartsAbove v (lastReleased v prev (snd (step e p))) (fst (step e p)) es)"

fun eventInRange :: "event \<Rightarrow> bool" where
  "eventInRange (VideoSample io tsMS cts d k) = inRange tsMS"
| "eventInRange (AudioSample io tsMS d) = inRange tsMS"
| "eventInRange (VideoConfig io c) = True"
| "eventInRange (AudioConfig io c) = True"
| "eventInRange (FlushCall io) = True"

text \<open>
  The state of a track in which no timestamp computation wraps around: the last
  duration and the last timestamp are within bounds, and a pending sample carries the
  last timestamp. The state of a new packager satisfies \<open>packagerInv\<close>, and the calls
  above preserve it.
\<close>

definition trackInv :: "trackState \<Rightarrow> bool" where
  "trackInv st =
     (0 \<le> lastDurMS st \<and> lastDurMS st \<le> 2 ^ 32
      \<and> 0 \<le> lastDTSMS st \<and> lastDTSMS st \<le> 2 ^ 33 + 5000
      \<and> (case pending st of
            None \<Rightarrow> True
          | Some pd \<Rightarrow> hasStarted st \<and> lastDTSMS st = dtsMS pd))"

definition packagerInv :: "Packager \<Rightarrow> bool" where
  "packagerInv p =
     (trackInv (videoState p) \<and> trackInv (audioState p) \<and> inRange (startTSMS p))"

text \<open>
  The state of a track after a call that gave it no sample: unchanged in what
  \<open>ingestSample\<close> reads, but for the pending sample, which a reset discards.
\<close>

definition undisturbed :: "trackState \<Rightarrow> trackState \<Rightarrow> bool" where
  "undisturbed st st' =
     (hasStarted st' = hasStarted st \<and> lastDTSMS st' = lastDTSMS st
      \<and> lastDurMS st' = lastDurMS st
      \<and> (pending st' = pending st \<or> pending st' = None))"

text \<open>
  Packagers and calls used to evaluate the definitions: a packager after the
  configuration updates of a stream with the given audio sample rate; one that resumed
  after segment 3 and latched the start timestamp 1000; one with audio at 44100 Hz
  that latched the start timestamp 1003; and three sequences of calls.
\<close>

definition liveAVCConfig :: AVCConfig where
  "liveAVCConfig = \<lparr>Profile = 100, Compatibility = 0, Level = 31, LengthSize = 4,
                      SPS = [[103, 66]], PPS = [[104]]\<rparr>"

definition liveAACConfig :: "int \<Rightarrow> AACConfig" where
  "liveAACConfig rate = \<lparr>aacASC = [18, 16], aacObjectType = 2, aacSampleRate = rate,
                          aacChannels = 2\<rparr>"

definition okIO :: pkgIO where
  "okIO = \<lparr>ioLastSegmentSeq = 0, ioInit = InitOK, ioInfInt64 = - (2 ^ 63),
            ioAppendFails = False\<rparr>"

definition livePackager :: "int \<Rightarrow> Packager" where
  "livePackager rate =
     UpdateVideoConfig okIO liveAVCConfig
       (UpdateAudioConfig okIO (liveAACConfig rate) (newPackager 2000000000 200000000 None))"

definition video :: "int \<Rightarrow> event" where
  "video t = VideoSample okIO t 0 [] False"

definition audio :: "int \<Rightarrow> event" where
  "audio t = AudioSample okIO t []"

definition sampleAt :: "int \<Rightarrow> pendingSample" where
  "sampleAt t = \<lparr>dtsMS = t, ctsMS = 0, data = [], isKey = False\<rparr>"

definition videoAt1000 :: Packager where
  "videoAt1000 =
     fst (step (video 1000)
            (UpdateVideoConfig okIO liveAVCConfig
               (UpdateAudioConfig okIO (liveAACConfig 48000)
                  (newPackager 2000000000 200000000 (Some 3)))))"

definition audioAt1003 :: Packager where
  "audioAt1003 = fst (step (audio 1003) (livePackager 44100))"

definition jumpRun :: "event list" where
  "jumpRun = [video 10000, video 14000, video 18000, video 12000, video 12033]"

definition resetRun :: "event list" where
  "resetRun = [video 10000, video 10033, audio 10000, audio 20000, video 10000, video 10033]"

definition steadyRun :: "event list" where
  "steadyRun =
     [video 10000, video 10033, video 10033, audio 10000, video 10020, video 20000,
      audio 20000, video 20033, VideoConfig okIO liveAVCConfig, video 20066, video 20100,
      FlushCall okIO, video 20133, video 20166, FlushCall okIO]"

section \<open>Archive recorder (pkg/archive)\<close>

text \<open>
  The recorder, without its output side: the fields \<open>mu\<close>, \<open>cfg\<close>, \<open>path\<close>, \<open>file\<close>,
  \<open>bytesWritten\<close>, \<open>maxSizeBytes\<close>, \<open>fragmentSeq\<close>, \<open>fragmentDurationMS\<close>,
  \<open>currentFragment\<close>, \<open>avcConfig\<close> and \<open>aacConfig\<close> are left out. The fields that the
  packager has under the same name carry the prefix \<open>rec\<close>. Every write to the file is
  taken to succeed below the size limit, so that \<open>appendToFragment\<close> and
  \<open>finalizeFragment\<close> write no field kept here and \<open>markFailed\<close> is not called: every
  sample released from a lookahead is written to the archive, with the decode time
  \<open>msToTimescale64(sample.dtsMS, state.timescale)\<close> that \<open>buildFullSample\<close> gives it.
\<close>

record Recorder =
  limitMode :: string
  maxDurationMS :: int
  sessions :: int
  sessionStarted :: bool
  sessionOffsetMS :: int
  recStarted :: bool
  recStartTSMS :: int
  lastTSMS :: int
  recVideoTS :: int
  recAudioTS :: int
  recVideoID :: int
  recAudioID :: int
  recInitWritten :: bool
  ignoreAudio :: bool
  recVideoState :: trackState
  recAudioState :: trackState
  stopped :: bool
  failed :: bool

definition StartSession :: "Recorder \<Rightarrow> Recorder" where
  "StartSession r = r\<lparr>sessions := i64 (sessions r + 1), sessionStarted := False,
                       sessionOffsetMS := 0\<rparr>"

definition adjustTS :: "Recorder \<Rightarrow> int \<Rightarrow> Recorder \<times> int" where
  "adjustTS r tsMS =
     (let r1 = (if \<not> sessionStarted r
                then (if lastTSMS r > 0 \<and> tsMS < i64 (lastTSMS r + 1)
                      then r\<lparr>sessionStarted := True,
                             sessionOffsetMS := i64 (i64 (lastTSMS r + 1) - tsMS)\<rparr>
                      else r\<lparr>sessionStarted := True, sessionOffsetMS := 0\<rparr>)
                else r);
          adj = i64 (tsMS + sessionOffsetMS r1)
      in (if adj > lastTSMS r1 then r1\<lparr>lastTSMS := adj\<rparr> else r1, adj))"

text \<open>
  \<open>ingestSample\<close>, \<open>flushTrack\<close>, \<open>ensureStart\<close> and \<open>addSample\<close> of the recorder;
  the names carry the prefix \<open>rec\<close>, those of the packager being in use. A released
  sample is given as the pending sample and the duration passed to \<open>buildFullSample\<close>.
\<close>

definition recGetState :: "bool \<Rightarrow> Recorder \<Rightarrow> trackState" where
  "recGetState isVideo r = (if isVideo then recVideoState r else recAudioState r)"

definition recSetState :: "bool \<Rightarrow> trackState \<Rightarrow> Recorder \<Rightarrow> Recorder" where
  "recSetState isVideo st r =
     (if isVideo then r\<lparr>recVideoState := st\<rparr> else r\<lparr>recAudioState := st\<rparr>)"

definition recIngestSample ::
  "bool \<Rightarrow> Recorder \<Rightarrow> pendingSample \<Rightarrow> Recorder \<times> (pendingSample \<times> int) option" where
  "recIngestSample isVideo r sample0 =
     (let st0 = recGetState isVideo r;
          st1 = (if timescale st0 = 0
                 then (if sampleIsVideo st0
                       then st0\<lparr>timescale := recVideoTS r, trackID := recVideoID r,
                                defaultDurMS := (if defaultDurMS st0 = 0 then 33
                                                 else defaultDurMS st0)\<rparr>
                       else st0\<lparr>timescale := recAudioTS r, trackID := recAudioID r\<rparr>)
                 else st0);
          sample = (case pending st1 of
                      Some pd \<Rightarrow>
                        (if hasStarted st1 \<and> dtsMS sample0 \<le> dtsMS pd
                         then sample0\<lparr>dtsMS := i64 (dtsMS pd + maxInt64 (lastDurMS st1) 1)\<rparr>
                         else sample0)
                    | None \<Rightarrow> sample0)
      in case pending st1 of
           None \<Rightarrow>
             (recSetState isVideo
                (st1\<lparr>pending := Some sample, hasStarted := True,
                     lastDTSMS := dtsMS sample\<rparr>) r, None)
         | Some pd \<Rightarrow>
             let d0 = i64 (dtsMS sample - dtsMS pd);
                 d1 = (if d0 \<le> 0 then lastDurMS st1 else d0);
                 d2 = (if d1 \<le> 0 then defaultDurMS st1 else d1);
                 durMS = (if d2 \<le> 0 then 1 else d2)
             in (recSetState isVideo
                   (st1\<lparr>lastDurMS := durMS, lastDTSMS := dtsMS sample,
                        pending := Some sample\<rparr>) r,
                 Some (pd, durMS)))"

definition recFlushTrack ::
  "bool \<Rightarrow> Recorder \<Rightarrow> Recorder \<times> (pendingSample \<times> int) option" where
  "recFlushTrack isVideo r =
     (let st = recGetState isVideo r
      in case pending st of
           None \<Rightarrow> (r, None)
         | Some pd \<Rightarrow>
             if \<not> recInitWritten r then (r, None)
             else
               let d0 = lastDurMS st;
                   d1 = (if d0 \<le> 0 then defaultDurMS st else d0);
                   durMS = (if d1 \<le> 0 then 1 else d1)
               in (recSetState isVideo (st\<lparr>pending := None\<rparr>) r, Some (pd, durMS)))"

definition recEnsureStart :: "int \<Rightarrow> Recorder \<Rightarrow> Recorder" where
  "recEnsureStart tsMS r =
     (if recStarted r then r else r\<lparr>recStarted := True, recStartTSMS := tsMS\<rparr>)"

definition recAddSample ::
  "bool \<Rightarrow> pendingSample \<Rightarrow> Recorder \<Rightarrow> Recorder \<times> (pendingSample \<times> int) option" where
  "recAddSample isVideo sample r =
     (if stopped r \<or> failed r then (r, None)
      else if \<not> recInitWritten r then (r, None)
      else if \<not> isVideo \<and> (ignoreAudio r \<or> recAudioID r = 0) then (r, None)
      else
        case adjustTS r (dtsMS sample) of
          (r1, adjustedTS) \<Rightarrow>
            if limitMode r1 = ''duration'' \<and> maxDurationMS r1 > 0 \<and> recStarted r1
               \<and> i64 (adjustedTS - recStartTSMS r1) \<ge> maxDurationMS r1
            then (r1\<lparr>stopped := True\<rparr>, None)
            else recIngestSample isVideo (recEnsureStart adjustedTS r1)
                   (sample\<lparr>dtsMS := adjustedTS\<rparr>))"

text \<open>
  The calls that reach a recorder during its sessions: \<open>AddVideoSample\<close> and
  \<open>AddAudioSample\<close> from the session, \<open>Flush\<close> from \<open>EndSession\<close> of the archive manager
  when the publisher disconnects, \<open>StartSession\<close> from \<open>Start\<close> of the manager when it
  reconnects within the grace period. \<open>archived r cs\<close> lists the samples that the calls
  \<open>cs\<close> release, in order, each with the flag of its track (video or audio).
\<close>

datatype recCall =
  RecVideo int int "byte list" bool
  | RecAudio int "byte list"
  | RecFlush
  | RecStartSession

fun recStep :: "recCall \<Rightarrow> Recorder \<Rightarrow> Recorder \<times> (bool \<times> pendingSample \<times> int) list" where
  "recStep (RecVideo tsMS cts d k) r =
     (case recAddSample True \<lparr>dtsMS = tsMS, ctsMS = cts, data = d, isKey = k\<rparr> r of
        (r', out) \<Rightarrow> (r', map (Pair True) (case out of None \<Rightarrow> [] | Some x \<Rightarrow> [x])))"
| "recStep (RecAudio tsMS d) r =
     (case recAddSample False \<lparr>dtsMS = tsMS, ctsMS = 0, data = d, isKey = False\<rparr> r of
        (r', out) \<Rightarrow> (r', map (Pair False) (case out of None \<Rightarrow> [] | Some x \<Rightarrow> [x])))"
| "recStep RecFlush r =
     (case recFlushTrack True r of
        (r1, out1) \<Rightarrow>
          (case recFlushTrack False r1 of
             (r2, out2) \<Rightarrow>
               (r2, map (Pair True) (case out1 of None \<Rightarrow> [] | Some x \<Rightarrow> [x])
                    @ map (Pair False) (case out2 of None \<Rightarrow> [] | Some x \<Rightarrow> [x]))))"
| "recStep RecStartSession r = (StartSession r, [])"

fun archived :: "Recorder \<Rightarrow> recCall list \<Rightarrow> (bool \<times> pendingSample \<times> int) list" where
  "archived r [] = []"
| "archived r (c # cs) = (case recStep c r of (r', out) \<Rightarrow> out @ archived r' cs)"

fun recRun :: "Recorder \<Rightarrow> recCall list \<Rightarrow> Recorder" where
  "recRun r [] = r"
| "recRun r (c # cs) = recRun (fst (recStep c r)) cs"

text \<open>
  The recorder of a stream with video at 90 kHz and audio at 48 kHz after
  \<open>NewRecorder\<close>, \<open>StartSession\<close>, \<open>SetBitrate\<close> above the threshold and the
  configuration updates that write the init segment.
\<close>

definition newTrackR :: "bool \<Rightarrow> int \<Rightarrow> int \<Rightarrow> int \<Rightarrow> trackState" where
  "newTrackR v ts dur tid =
     \<lparr>timescale = ts, pending = None, lastDurMS = 0, defaultDurMS = dur,
      lastDTSMS = 0, hasStarted = False, trackID = tid, sampleIsVideo = v\<rparr>"

definition liveRecorder :: Recorder where
  "liveRecorder =
     \<lparr>limitMode = ''size'', maxDurationMS = 0, sessions = 1, sessionStarted = False,
      sessionOffsetMS = 0, recStarted = False, recStartTSMS = 0, lastTSMS = 0,
      recVideoTS = 90000, recAudioTS = 48000, recVideoID = 1, recAudioID = 2,
      recInitWritten = True, ignoreAudio = False,
      recVideoState = newTrackR True 90000 33 1, recAudioState = newTrackR False 48000 21 2,
      stopped = False, failed = False\<rparr>"

definition rv :: "int \<Rightarrow> recCall" where
  "rv t = RecVideo t 0 [] False"

definition firstSession :: "recCall list" where
  "firstSession = [rv 0, rv 33, rv 66, rv 66, RecFlush]"

definition secondSession :: "recCall list" where
  "secondSession = [RecStartSession, rv 0, rv 33, RecFlush]"

text \<open>
  \<open>adjustTS\<close> on a list of timestamps, and the offset that the first sample \<open>t0\<close> of
  a session sets after the last timestamp \<open>lastTS\<close>.
\<close>

fun adjustAll :: "Recorder \<Rightarrow> int list \<Rightarrow> Recorder \<times> int list" where
  "adjustAll r [] = (r, [])"
| "adjustAll r (t # ts) =
     (case adjustTS r t of (r', a) \<Rightarrow>
        (case adjustAll r' ts of (r'', as) \<Rightarrow> (r'', a # as)))"

definition sessionOffsetFor :: "int \<Rightarrow> int \<Rightarrow> int" where
  "sessionOffsetFor lastTS t0 = (if lastTS > 0 then max 0 ((lastTS + 1) - t0) else 0)"



section \<open>Properties of the floating-point model\<close>

text \<open>
  \<open>exponent x\<close> is the binary exponent of \<open>x\<close>; \<open>float64 x\<close> is a multiple of the unit
  in the last place of \<open>x\<close> and lies within half a unit of \<open>x\<close>.
\<close>

declare bitlen.simps [simp del]

lemma pow2_powi: "pow2 e = 2 powi e"
  by (simp add: pow2_def power_int_def inverse_eq_divide power_one_over)

lemma pow2_pos [simp]: "0 < pow2 e"
  by (simp add: pow2_powi)

lemma pow2_nz [simp]: "pow2 e \<noteq> 0"
  by (simp add: pow2_powi)

lemma pow2_add: "pow2 (a + b) = pow2 a * pow2 b"
  by (simp add: pow2_powi power_int_add)

lemma pow2_1 [simp]: "pow2 1 = 2" "pow2 0 = 1"
  by (simp_all add: pow2_def)

lemma pow2_Suc: "pow2 (e + 1) = 2 * pow2 e"
  using pow2_add [of e 1] by simp

lemma bitlen_bounds:
  "0 < n \<Longrightarrow> 0 < bitlen n \<and> pow2 (bitlen n - 1) \<le> of_int n \<and> of_int n < pow2 (bitlen n)"
proof (induction n rule: bitlen.induct)
  case (1 n)
  show ?case
  proof (cases "n div 2 = 0")
    case True
    then have n1: "n = 1" using 1(2) by presburger
    have "bitlen 1 = 1" by (simp add: bitlen.simps [of 1] bitlen.simps [of 0])
    then show ?thesis using n1 by simp
  next
    case False
    then have h: "0 < n div 2" using 1(2) by presburger
    define b where "b = bitlen (n div 2)"
    from 1(1) h 1(2) have ih: "0 < b" "pow2 (b - 1) \<le> of_int (n div 2)"
      "of_int (n div 2) < pow2 b" by (auto simp: b_def)
    have bl: "bitlen n = b + 1" using 1(2) by (simp add: bitlen.simps [of n] b_def)
    have lo: "(of_int (2 * (n div 2)) :: rat) \<le> of_int n"
      by (subst of_int_le_iff) presburger
    have hi: "(of_int n :: rat) \<le> of_int (2 * (n div 2) + 1)"
      by (subst of_int_le_iff) presburger
    have pb: "pow2 b = 2 * pow2 (b - 1)" using pow2_Suc [of "b - 1"] by simp
    have ib: "\<exists>k :: int. pow2 b = of_int k"
    proof -
      have "pow2 b = 2 ^ nat b" using ih(1) by (simp add: pow2_def)
      then have "pow2 b = of_int (2 ^ nat b)" by simp
      then show ?thesis by blast
    qed
    then obtain k :: int where k: "pow2 b = of_int k" by blast
    have "n div 2 < k" using ih(3) k by simp
    then have "2 * (n div 2) + 1 < 2 * k" by simp
    then have "(of_int (2 * (n div 2) + 1) :: rat) < of_int (2 * k)"
      by (subst of_int_less_iff)
    then have up: "of_int n < 2 * pow2 b" using hi k by simp
    have "2 * pow2 (b - 1) \<le> of_int (2 * (n div 2))" using ih(2) by simp
    then have dn: "pow2 b \<le> of_int n" using lo pb by simp
    show ?thesis using ih(1) up dn by (simp add: bl pow2_Suc)
  qed
qed

lemma exponent_bracket:
  assumes "x \<noteq> 0"
  shows "pow2 (exponent x) \<le> \<bar>x\<bar> \<and> \<bar>x\<bar> < pow2 (exponent x + 1)"
proof -
  obtain a b where q: "quotient_of \<bar>x\<bar> = (a, b)" by (cases "quotient_of \<bar>x\<bar>")
  have b: "0 < b" using quotient_of_denom_pos [OF q] .
  have x: "\<bar>x\<bar> = of_int a / of_int b" using quotient_of_div [OF q] .
  have "0 < \<bar>x\<bar>" using assms by simp
  then have a: "0 < a" using x b by (simp add: zero_less_divide_iff)
  note ba = bitlen_bounds [OF a]
  note bb = bitlen_bounds [OF b]
  define e where "e = bitlen a - bitlen b"
  have bp: "(0::rat) < of_int b" using b by simp
  have "\<bar>x\<bar> < pow2 (bitlen a) / pow2 (bitlen b - 1)"
  proof -
    have "of_int a / of_int b < pow2 (bitlen a) / (of_int b :: rat)"
      using ba bp by (simp add: divide_strict_right_mono)
    also have "\<dots> \<le> pow2 (bitlen a) / pow2 (bitlen b - 1)"
      using bb bp by (intro divide_left_mono mult_pos_pos) (simp_all add: less_imp_le)
    finally show ?thesis using x by simp
  qed
  moreover have "pow2 (bitlen a) / pow2 (bitlen b - 1) = pow2 (e + 1)"
    using pow2_add [of "e + 1" "bitlen b - 1"] pow2_pos [of "bitlen b - 1"]
    by (simp add: e_def field_simps)
  ultimately have up: "\<bar>x\<bar> < pow2 (e + 1)" by simp
  have "pow2 (bitlen a - 1) / pow2 (bitlen b) < \<bar>x\<bar>"
  proof -
    have "pow2 (bitlen a - 1) / pow2 (bitlen b) < pow2 (bitlen a - 1) / (of_int b :: rat)"
      using bb bp by (intro divide_strict_left_mono mult_pos_pos) simp_all
    also have "\<dots> \<le> of_int a / of_int b"
      using ba bp by (simp add: divide_right_mono)
    finally show ?thesis using x by simp
  qed
  moreover have "pow2 (bitlen a - 1) / pow2 (bitlen b) = pow2 (e - 1)"
    using pow2_add [of "e - 1" "bitlen b"] pow2_pos [of "bitlen b"]
    by (simp add: e_def field_simps)
  ultimately have lo: "pow2 (e - 1) < \<bar>x\<bar>" by simp
  have ex: "exponent x = (if pow2 e \<le> \<bar>x\<bar> then e else e - 1)"
    by (simp add: exponent_def q e_def Let_def)
  show ?thesis
  proof (cases "pow2 e \<le> \<bar>x\<bar>")
    case True
    then show ?thesis using up ex by simp
  next
    case False
    then show ?thesis using lo ex by simp
  qed
qed

lemma roundHalfEven_error: "\<bar>of_int (roundHalfEven y) - y\<bar> \<le> 1 / 2"
proof -
  define f where "f = \<lfloor>y\<rfloor>"
  define r where "r = y - of_int f"
  have r: "0 \<le> r" "r < 1" unfolding r_def f_def by linarith+
  have y: "y = of_int f + r" by (simp add: r_def)
  have "roundHalfEven y = (if r < 1 / 2 then f else if r > 1 / 2 then f + 1
                           else if even f then f else f + 1)"
    by (simp add: roundHalfEven_def Let_def f_def r_def)
  then show ?thesis using r unfolding y by (auto simp: abs_if)
qed

lemma float64_nearest:
  assumes "x \<noteq> 0"
  shows "\<exists>k. float64 x = of_int k * pow2 (max (exponent x) (- 1022) - 52)"
    and "\<bar>float64 x - x\<bar> \<le> pow2 (max (exponent x) (- 1022) - 52) / 2"
proof -
  define u where "u = pow2 (max (exponent x) (- 1022) - 52)"
  have u: "0 < u" by (simp add: u_def)
  have f: "float64 x = of_int (roundHalfEven (x / u)) * u"
    using assms by (simp add: float64_def Let_def u_def)
  show "\<exists>k. float64 x = of_int k * pow2 (max (exponent x) (- 1022) - 52)"
    using f unfolding u_def by blast
  have "float64 x - x = (of_int (roundHalfEven (x / u)) - x / u) * u"
    using u by (simp add: f field_simps)
  then have "\<bar>float64 x - x\<bar> = \<bar>of_int (roundHalfEven (x / u)) - x / u\<bar> * u"
    using u by (simp add: abs_mult)
  also have "\<dots> \<le> (1 / 2) * u"
    using roundHalfEven_error [of "x / u"] u by (intro mult_right_mono) simp_all
  finally show "\<bar>float64 x - x\<bar> \<le> pow2 (max (exponent x) (- 1022) - 52) / 2"
    by (simp add: u_def)
qed

section \<open>Properties of the playlist manager\<close>

subsection \<open>Prune\<close>

lemma Prune_disabled:
  "KeepSegments (cfg p) \<le> 0 \<Longrightarrow> Prune p = ([], p)"
  by (simp add: Prune_def)

lemma Prune_enabled:
  "0 < KeepSegments (cfg p) \<Longrightarrow>
   Prune p = (take (length (segments p) - nat (KeepSegments (cfg p))) (segments p),
              p\<lparr>segments := drop (length (segments p) - nat (KeepSegments (cfg p))) (segments p)\<rparr>)"
  by (auto simp: Prune_def Let_def nat_diff_distrib')

text \<open>
  Claim C6, as stated, at keep_segments = 0 and one segment held: the claim has Prune
  remove the oldest len - k = 1 segments and leave at most k = 0; the code removes
  nothing and one segment remains.
\<close>

theorem Prune_keep_zero_counterexample:
  "fst (Prune (demoManager 0 [demoSeg 1])) = []
   \<and> segments (snd (Prune (demoManager 0 [demoSeg 1]))) = [demoSeg 1]
   \<and> \<not> int (length (segments (snd (Prune (demoManager 0 [demoSeg 1])))))
         \<le> KeepSegments (cfg (demoManager 0 [demoSeg 1]))"
  by (simp add: Prune_def demoManager_def demoConfig_def)

text \<open>
  Claim C6, amended: for every playlist state with keep_segments k > 0 and a segment
  list of length len, Prune removes and returns exactly the oldest len - k segments in
  their original order and leaves the newest segments unchanged and in order, so that
  at most k segments remain; when len <= k it removes nothing and returns an empty
  result. With k <= 0 pruning is switched off: nothing is removed and the result is
  empty. Prune changes no other field of the manager.
\<close>

theorem Prune_removes_oldest:
  "(0 < KeepSegments (cfg p) \<longrightarrow>
      fst (Prune p) = take (length (segments p) - nat (KeepSegments (cfg p))) (segments p)
      \<and> segments (snd (Prune p))
          = drop (length (segments p) - nat (KeepSegments (cfg p))) (segments p)
      \<and> int (length (segments (snd (Prune p)))) \<le> KeepSegments (cfg p)
      \<and> (int (length (segments p)) \<le> KeepSegments (cfg p) \<longrightarrow>
           fst (Prune p) = [] \<and> snd (Prune p) = p))
   \<and> (KeepSegments (cfg p) \<le> 0 \<longrightarrow> Prune p = ([], p))
   \<and> fst (Prune p) @ segments (snd (Prune p)) = segments p
   \<and> snd (Prune p) = p\<lparr>segments := segments (snd (Prune p))\<rparr>"
proof (cases "0 < KeepSegments (cfg p)")
  case True
  then show ?thesis
    by (auto simp: Prune_enabled)
next
  case False
  then show ?thesis
    by (simp add: Prune_disabled)
qed

theorem Prune_removes_oldest_witness:
  "fst (Prune (demoManager 2 [demoSeg 1, demoSeg 2, demoSeg 3])) = [demoSeg 1]
   \<and> segments (snd (Prune (demoManager 2 [demoSeg 1, demoSeg 2, demoSeg 3])))
       = [demoSeg 2, demoSeg 3]
   \<and> 0 < KeepSegments (cfg (demoManager 2 [demoSeg 1, demoSeg 2, demoSeg 3]))"
  using Prune_removes_oldest [of "demoManager 2 [demoSeg 1, demoSeg 2, demoSeg 3]"]
  by (simp add: demoManager_def demoConfig_def)

section \<open>Properties of the packager\<close>

subsection \<open>Wrap-around that does not happen\<close>

lemma i64_id: "- (2 ^ 63) \<le> x \<Longrightarrow> x < 2 ^ 63 \<Longrightarrow> i64 x = x"
  unfolding i64_def by (rule signed_take_bit_int_eq_self) simp_all

lemma u64_id: "0 \<le> x \<Longrightarrow> x < 2 ^ 64 \<Longrightarrow> u64 x = x"
  unfolding u64_def by (rule take_bit_int_eq_self) simp_all

lemma sdiv_nonneg: "0 \<le> (x::int) \<Longrightarrow> 0 < y \<Longrightarrow> x sdiv y = x div y"
  by (simp add: signed_divide_int_def sgn_if)

lemma div_le_self_int: "0 \<le> (x::int) \<Longrightarrow> 0 < y \<Longrightarrow> x div y \<le> x"
  using zdiv_mono2 [of x 1 y] by simp

lemma mult_bound61:
  assumes "0 \<le> (a::int)" "a \<le> 2 ^ 32" "0 \<le> b" "b \<le> 2 ^ 29"
  shows "0 \<le> a * b \<and> a * b \<le> 2 ^ 61"
proof -
  have "a * b \<le> 2 ^ 32 * 2 ^ 29" using assms by (intro mult_mono) simp_all
  then show ?thesis using assms by simp
qed

subsection \<open>computePartIndex\<close>

lemma computePartIndex_rel:
  fixes S P rel N t :: int
  assumes S: "S = segmentDurationMS p" "0 < S" "S \<le> 2 ^ 29"
    and P: "P = partDurationMS p" "0 < P" "P \<le> 2 ^ 29"
    and st: "0 \<le> startTSMS p" "startTSMS p \<le> 2 ^ 32"
    and off: "0 \<le> segmentOffset p" "segmentOffset p < 2 ^ 63"
    and dts: "t = timescaleToMS decodeTime (if isVideo then videoTS p else audioTS p)"
             "0 \<le> t" "t \<le> 2 ^ 32"
  shows "computePartIndex p decodeTime isVideo
           = Some (partIndexSpec S P (startTSMS p) (segmentOffset p) t)"
proof -
  define rel where "rel = max 0 (t - startTSMS p)"
  define N where "N = max 1 (S div P)"
  have rel_b: "0 \<le> rel" "rel \<le> 2 ^ 32" using rel_def dts st by auto
  have rel0: "i64 (t - startTSMS p) = t - startTSMS p"
    using dts st by (intro i64_id) auto
  have relc: "(if i64 (t - startTSMS p) < 0 then 0 else i64 (t - startTSMS p)) = rel"
    using rel_def rel0 by auto
  have sp: "0 \<le> S div P" "S div P \<le> 2 ^ 29"
    using S P div_le_self_int [of S P] by (auto simp: pos_imp_zdiv_nonneg_iff)
  have pps: "i64 (S sdiv P) = S div P" using sp S P by (simp add: sdiv_nonneg i64_id)
  have Nb: "0 \<le> N" "N \<le> 2 ^ 29" using N_def sp by auto
  have ppsN: "(if i64 (S sdiv P) \<le> 0 then 1 else i64 (S sdiv P)) = N"
    using pps N_def by auto
  have gp: "0 \<le> rel div P" "rel div P \<le> 2 ^ 32"
    using rel_b P div_le_self_int [of rel P] by (auto simp: pos_imp_zdiv_nonneg_iff)
  have gpi: "i64 (rel sdiv P) = rel div P" using gp rel_b P by (simp add: sdiv_nonneg i64_id)
  have sg: "0 \<le> rel div S" "rel div S \<le> 2 ^ 32"
    using rel_b S div_le_self_int [of rel S] by (auto simp: pos_imp_zdiv_nonneg_iff)
  have sgi: "i64 (rel sdiv S) = rel div S" using sg rel_b S by (simp add: sdiv_nonneg i64_id)
  have seq: "u64 (u64 (u64 (rel div S) + 1) + segmentOffset p) = rel div S + 1 + segmentOffset p"
    using sg off by (simp add: u64_id)
  have m1: "0 \<le> rel div S * S" "rel div S * S \<le> 2 ^ 61"
    using mult_bound61 [OF sg S(2) [THEN less_imp_le] S(3)] by auto
  have m1i: "i64 (rel div S * S) = rel div S * S" using m1 by (simp add: i64_id)
  have ss: "i64 (startTSMS p + rel div S * S) = startTSMS p + rel div S * S"
    using m1 st by (intro i64_id) auto
  have m2: "0 \<le> rel div S * N" "rel div S * N \<le> 2 ^ 61"
    using mult_bound61 [OF sg Nb] by auto
  have m2i: "i64 (rel div S * N) = rel div S * N" using m2 by (simp add: i64_id)
  have pi0: "i64 (rel div P - rel div S * N) = rel div P - rel div S * N"
    using m2 gp by (intro i64_id) auto
  define pidx where "pidx = max 0 (rel div P - rel div S * N)"
  have pidx_b: "0 \<le> pidx" "pidx \<le> 2 ^ 32" using gp m2 by (auto simp: pidx_def)
  have pic: "(if i64 (rel div P - rel div S * N) < 0 then 0 else i64 (rel div P - rel div S * N)) = pidx"
    using pi0 by (auto simp: pidx_def)
  have m3: "0 \<le> pidx * P" "pidx * P \<le> 2 ^ 61"
    using mult_bound61 [OF pidx_b P(2) [THEN less_imp_le] P(3)] by auto
  have m3i: "i64 (pidx * P) = pidx * P" using m3 by (simp add: i64_id)
  have ps: "i64 (startTSMS p + rel div S * S + pidx * P) = startTSMS p + rel div S * S + pidx * P"
    using m1 m3 st by (intro i64_id) auto
  have tsms: "(if isVideo then timescaleToMS decodeTime (videoTS p)
               else timescaleToMS decodeTime (audioTS p)) = t"
    using dts by simp
  have spec: "partIndexSpec S P (startTSMS p) (segmentOffset p) t
                = (pidx, rel div S + 1 + segmentOffset p, startTSMS p + rel div S * S + pidx * P)"
    by (simp add: partIndexSpec_def Let_def rel_def [symmetric] N_def [symmetric]
          pidx_def [symmetric])
  show ?thesis
    unfolding computePartIndex_def Let_def tsms relc S(1) [symmetric] P(1) [symmetric]
      ppsN gpi sgi seq m1i ss m2i pic m3i ps spec
    using S P by simp
qed

lemma roundTrip_ms:
  fixes t ts :: int
  assumes "0 \<le> t" "t \<le> 2 ^ 32" "0 < ts" "ts \<le> 2 ^ 20"
  shows "timescaleToMS (msToTimescale64 t ts) ts = (t * ts div 1000) * 1000 div ts"
proof (cases "t = 0")
  case True
  then show ?thesis using assms by (simp add: timescaleToMS_def msToTimescale64_def u64_def i64_def)
next
  case False
  then have pos: "0 < t" using assms by simp
  have "t * ts \<le> 2 ^ 32 * 2 ^ 20" using assms by (intro mult_mono) simp_all
  then have b: "0 \<le> t * ts" "t * ts \<le> 2 ^ 52" using assms by simp_all
  define q where "q = t * ts div 1000"
  have q: "0 \<le> q" "q \<le> 2 ^ 52"
    using b div_le_self_int [of "t * ts" 1000] by (auto simp: q_def pos_imp_zdiv_nonneg_iff)
  have a1: "i64 (t * ts) = t * ts" using b by (intro i64_id) auto
  have a2: "(t * ts) sdiv 1000 = q" using b by (simp add: sdiv_nonneg q_def)
  have a3: "u64 (i64 q) = q" using q by (simp add: i64_id u64_id)
  have "q * 1000 \<le> 2 ^ 52 * 1000" using q by (intro mult_right_mono) simp_all
  then have q1: "0 \<le> q * 1000" "q * 1000 < 2 ^ 63" using q by simp_all
  have a4: "i64 (u64 (q * 1000)) = q * 1000" using q1 by (simp add: i64_id u64_id)
  have a5: "(q * 1000) sdiv ts = q * 1000 div ts" using q1 assms by (simp add: sdiv_nonneg)
  have d: "0 \<le> q * 1000 div ts" "q * 1000 div ts \<le> q * 1000"
    using q1 assms div_le_self_int [of "q * 1000" ts] by (auto simp: pos_imp_zdiv_nonneg_iff)
  have a6: "i64 (q * 1000 div ts) = q * 1000 div ts" using d q1 by (intro i64_id) auto
  show ?thesis
    using pos assms
    by (simp add: timescaleToMS_def msToTimescale64_def a1 a2 a3 a4 a5 a6 q_def [symmetric])
qed

lemma roundTrip_bounds:
  fixes t ts :: int
  assumes "0 \<le> t" "0 < ts"
  shows "(t * ts div 1000) * 1000 div ts \<le> t"
    and "0 \<le> (t * ts div 1000) * 1000 div ts"
    and "1000 \<le> ts \<Longrightarrow> t - 1 \<le> (t * ts div 1000) * 1000 div ts"
    and "1000 dvd ts \<Longrightarrow> (t * ts div 1000) * 1000 div ts = t"
proof -
  define q where "q = t * ts div 1000"
  have nn: "0 \<le> t * ts" using assms by simp
  have q0: "0 \<le> q" using nn by (simp add: q_def pos_imp_zdiv_nonneg_iff)
  have up: "q * 1000 \<le> t * ts" unfolding q_def by simp
  have lo: "t * ts < q * 1000 + 1000"
    using div_mult_mod_eq [of "t * ts" 1000] pos_mod_bound [of 1000 "t * ts"]
    unfolding q_def by linarith
  show "(t * ts div 1000) * 1000 div ts \<le> t"
  proof -
    have "q * 1000 div ts \<le> t * ts div ts" using up assms by (intro zdiv_mono1) simp_all
    then show ?thesis using assms by (simp add: q_def)
  qed
  show "0 \<le> (t * ts div 1000) * 1000 div ts"
    using q0 assms by (simp add: q_def [symmetric] pos_imp_zdiv_nonneg_iff)
  show "t - 1 \<le> (t * ts div 1000) * 1000 div ts" if "1000 \<le> ts"
  proof -
    have "(t - 1) * ts \<le> q * 1000"
    proof -
      have "(t - 1) * ts = t * ts - ts" by (simp add: algebra_simps)
      then show ?thesis using lo that by linarith
    qed
    then have "(t - 1) * ts div ts \<le> q * 1000 div ts" using assms by (intro zdiv_mono1) simp_all
    then show ?thesis using assms by (simp add: q_def)
  qed
  show "(t * ts div 1000) * 1000 div ts = t" if "1000 dvd ts"
  proof -
    from that obtain k where k: "ts = 1000 * k" by (auto simp: dvd_def)
    have kp: "0 < k" using assms k by simp
    have "t * ts div 1000 = t * k" using k by simp
    then have "(t * ts div 1000) * 1000 div ts = t * k * 1000 div (1000 * k)" using k by simp
    also have "\<dots> = t * (k * 1000) div (k * 1000)" by (simp add: mult.commute mult.assoc)
    also have "\<dots> = t" using kp by simp
    finally show ?thesis .
  qed
qed

text \<open>
  Claim C4 reads: for every sample timestamp dts handled after the start timestamp is
  latched, with segment size S, part size P, N = max(1, S/P) and
  rel = max(0, dts - start_ts), computePartIndex returns
  seg_seq = rel/S + 1 + segment_offset, part_idx = rel/P - (rel/S) N clamped at a
  minimum of 0, and part_start_ms = (start_ts + (rel/S) S) + part_idx P.
  \<open>computePartIndex\<close> is not given the timestamp of the sample but its decode time in
  the timescale of the track, which \<open>buildFullSample\<close> computes with a truncating
  division and \<open>computePartIndex\<close> converts back with another. On the audio track at
  44100 Hz, with the start timestamp 1003, 200 ms parts and 2 s segments, the sample
  with dts_ms 1203 has the decode time 53052, which is 1202 ms: it is put in part 0,
  where the formula on 1203 gives part 1; the sample with dts_ms 3003 is put in
  part 9 of segment 1, where the formula gives part 0 of segment 2.
\<close>

theorem computePartIndex_decodeTime_counterexample:
  "startTSMS audioAt1003 = 1003 \<and> segmentOffset audioAt1003 = 0
   \<and> segmentDurationMS audioAt1003 = 2000 \<and> partDurationMS audioAt1003 = 200
   \<and> timescale (audioState audioAt1003) = 44100
   \<and> samplePartIndex audioAt1003 (audioState audioAt1003) (sampleAt 1203) = Some (0, 1, 1003)
   \<and> partIndexSpec 2000 200 1003 0 1203 = (1, 1, 1203)
   \<and> samplePartIndex audioAt1003 (audioState audioAt1003) (sampleAt 3003) = Some (9, 1, 2803)
   \<and> partIndexSpec 2000 200 1003 0 3003 = (0, 2, 3003)"
  by code_simp

text \<open>
  Claim C4, amended. Let a sample of a track with timescale ts (at most 2^20) have the
  timestamp dts in the 32-bit range of RTMP timestamps, and let it be handled after
  the start timestamp start_ts (in that range) is latched, with segment size S > 0 and
  part size P > 0 (both at most 2^29 ms), N = max(1, S/P) and a segment offset below
  2^63. Let dts' = ((dts ts) div 1000) 1000 div ts, the timestamp after the conversion
  to the timescale and back, and rel = max(0, dts' - start_ts), all in integer
  arithmetic. Then \<open>computePartIndex\<close>, called with the decode time of the sample as
  \<open>appendToPart\<close> calls it, does not panic and returns
  seg_seq = rel/S + 1 + segment_offset, part_idx = rel/P - (rel/S) N clamped at a
  minimum of 0, and part_start_ms = (start_ts + (rel/S) S) + part_idx P, without
  wrap-around. dts' is never above dts; it is dts or dts - 1 for a timescale of at
  least 1000, and it is dts for a timescale that is a multiple of 1000, as that of the
  video track (90000) and of audio at 48000 Hz.
\<close>

theorem computePartIndex_formula:
  fixes S P ts dts dts' :: int
  assumes S: "S = segmentDurationMS p" "0 < S" "S \<le> 2 ^ 29"
    and P: "P = partDurationMS p" "0 < P" "P \<le> 2 ^ 29"
    and st: "0 \<le> startTSMS p" "startTSMS p \<le> 2 ^ 32"
    and off: "0 \<le> segmentOffset p" "segmentOffset p < 2 ^ 63"
    and ts: "ts = timescale tr" "ts = (if trackID tr = videoID p then videoTS p else audioTS p)"
            "0 < ts" "ts \<le> 2 ^ 20"
    and dts: "dts = dtsMS sample" "0 \<le> dts" "dts \<le> 2 ^ 32"
    and dts': "dts' = (dts * ts div 1000) * 1000 div ts"
  shows "samplePartIndex p tr sample
           = Some (partIndexSpec S P (startTSMS p) (segmentOffset p) dts')
         \<and> dts' \<le> dts
         \<and> (1000 \<le> ts \<longrightarrow> dts - 1 \<le> dts')
         \<and> (1000 dvd ts \<longrightarrow> dts' = dts)"
proof -
  have rt: "timescaleToMS (msToTimescale64 dts ts) ts = dts'"
    unfolding dts' using dts(2,3) ts(3,4) by (rule roundTrip_ms)
  note b = roundTrip_bounds [OF dts(2) ts(3)]
  have d0: "0 \<le> dts'" "dts' \<le> 2 ^ 32" using b(1,2) dts(3) unfolding dts' by auto
  have t: "dts' = timescaleToMS (msToTimescale64 (dtsMS sample) (timescale tr))
                    (if trackID tr = videoID p then videoTS p else audioTS p)"
    using rt ts(1,2) dts(1) by simp
  have "samplePartIndex p tr sample
           = Some (partIndexSpec S P (startTSMS p) (segmentOffset p) dts')"
    unfolding samplePartIndex_def
    using computePartIndex_rel [OF S P st off t d0] .
  then show ?thesis using b(1,3,4) unfolding dts' by blast
qed

theorem computePartIndex_formula_witness:
  "startTSMS videoAt1000 = 1000 \<and> segmentOffset videoAt1000 = 3
   \<and> samplePartIndex videoAt1000 (videoState videoAt1000) (sampleAt 5250)
       = Some (partIndexSpec 2000 200 1000 3 5250)
   \<and> partIndexSpec 2000 200 1000 3 5250 = (1, 6, 5200)
   \<and> samplePartIndex audioAt1003 (audioState audioAt1003) (sampleAt 1203)
       = Some (partIndexSpec 2000 200 1003 0 1202)
   \<and> partIndexSpec 2000 200 1003 0 1202 = (0, 1, 1003)"
proof -
  let ?p = "videoAt1000"
  let ?tr = "videoState videoAt1000"
  have f: "2000 = segmentDurationMS ?p" "200 = partDurationMS ?p"
    "startTSMS ?p = 1000" "segmentOffset ?p = 3"
    "90000 = timescale ?tr" "90000 = (if trackID ?tr = videoID ?p then videoTS ?p else audioTS ?p)"
    "5250 = dtsMS (sampleAt 5250)"
    by code_simp+
  have g: "2000 = segmentDurationMS audioAt1003" "200 = partDurationMS audioAt1003"
    "startTSMS audioAt1003 = 1003" "segmentOffset audioAt1003 = 0"
    "44100 = timescale (audioState audioAt1003)"
    "44100 = (if trackID (audioState audioAt1003) = videoID audioAt1003
              then videoTS audioAt1003 else audioTS audioAt1003)"
    "1203 = dtsMS (sampleAt 1203)"
    by code_simp+
  have a: "samplePartIndex ?p ?tr (sampleAt 5250) = Some (partIndexSpec 2000 200 1000 3 5250)"
    using computePartIndex_formula [where p = ?p and tr = ?tr and sample = "sampleAt 5250"
        and S = 2000 and P = 200 and ts = 90000 and dts = 5250 and dts' = 5250,
        OF f(1) _ _ f(2) _ _ _ _ _ _ f(5) f(6) _ _ f(7)]
    by (simp add: f(3,4))
  have b: "samplePartIndex audioAt1003 (audioState audioAt1003) (sampleAt 1203)
             = Some (partIndexSpec 2000 200 1003 0 1202)"
    using computePartIndex_formula [where p = audioAt1003 and tr = "audioState audioAt1003"
        and sample = "sampleAt 1203" and S = 2000 and P = 200 and ts = 44100 and dts = 1203
        and dts' = 1202, OF g(1) _ _ g(2) _ _ _ _ _ _ g(5) g(6) _ _ g(7)]
    by (simp add: g(3,4))
  have c: "partIndexSpec 2000 200 1000 3 5250 = (1, 6, 5200)"
    "partIndexSpec 2000 200 1003 0 1202 = (0, 1, 1003)"
    by code_simp+
  show ?thesis using a b c f(3,4) by blast
qed

subsection \<open>States of the two tracks\<close>

lemma getState_setState [simp]: "getState v (setState v st p) = st"
  by (simp add: getState_def setState_def)

lemma getState_setState_other [simp]: "w \<noteq> v \<Longrightarrow> getState v (setState w st p) = getState v p"
  by (auto simp: getState_def setState_def)

lemma setState_setState [simp]: "setState v st (setState v st' p) = setState v st p"
  by (simp add: setState_def)

lemma setState_fields [simp]:
  "startTSMS (setState v st p) = startTSMS p"
  "started (setState v st p) = started p"
  "initWritten (setState v st p) = initWritten p"
  "videoTS (setState v st p) = videoTS p"
  "audioTS (setState v st p) = audioTS p"
  "videoID (setState v st p) = videoID p"
  "audioID (setState v st p) = audioID p"
  by (simp_all add: setState_def)

lemma undisturbed_refl [simp]: "undisturbed st st"
  by (simp add: undisturbed_def)

lemma undisturbed_trans:
  "undisturbed a b \<Longrightarrow> undisturbed b c \<Longrightarrow> undisturbed a c"
  by (auto simp: undisturbed_def)

lemma trackInv_undisturbed: "trackInv st \<Longrightarrow> undisturbed st st' \<Longrightarrow> trackInv st'"
  by (auto simp: trackInv_def undisturbed_def split: option.splits)

lemma undisturbed_maybeWriteInit:
  "undisturbed (getState v p) (getState v (maybeWriteInit out p))"
  by (simp add: maybeWriteInit_def Let_def getState_def undisturbed_def)

lemma maybeWriteInit_start [simp]:
  "startTSMS (maybeWriteInit out p) = startTSMS p"
  "started (maybeWriteInit out p) = started p"
  by (simp_all add: maybeWriteInit_def Let_def)

lemma undisturbed_reset: "undisturbed (getState v p) (getState v (reset b io p))"
proof -
  let ?p1 = "p\<lparr>segmentOffset := ioLastSegmentSeq io, startTSMS := 0, started := False,
                 videoState := (videoState p)\<lparr>pending := None\<rparr>,
                 audioState := (audioState p)\<lparr>pending := None\<rparr>,
                 initWritten := False, videoID := 0, audioID := 0\<rparr>"
  have a: "undisturbed (getState v p) (getState v ?p1)"
    by (simp add: getState_def undisturbed_def)
  have b: "undisturbed (getState v ?p1) (getState v (maybeWriteInit (ioInit io) ?p1))"
    by (rule undisturbed_maybeWriteInit)
  show ?thesis
    using a undisturbed_trans [OF a b] by (simp add: reset_def Let_def)
qed

lemma reset_pending [simp]: "pending (getState v (reset b io p)) = None"
  by (simp add: reset_def maybeWriteInit_def Let_def getState_def)

lemma reset_start [simp]:
  "startTSMS (reset b io p) = 0" "started (reset b io p) = False"
  by (simp_all add: reset_def Let_def)

lemma undisturbed_UpdateVideoConfig:
  "undisturbed (getState v p) (getState v (UpdateVideoConfig io c p))"
proof -
  define p1 where "p1 = (if initWritten p \<and> \<not> EqualAVCConfig (avcConfig p) c
                          then reset False io p else p)"
  define p2 where "p2 = p1\<lparr>avcConfig := c,
                           videoState := (videoState p1)\<lparr>sampleIsVideo := True\<rparr>\<rparr>"
  have a: "undisturbed (getState v p) (getState v p1)"
    using undisturbed_reset [of v p False io] by (simp add: p1_def)
  have b: "undisturbed (getState v p1) (getState v p2)"
    by (simp add: p2_def getState_def undisturbed_def)
  have c: "undisturbed (getState v p2) (getState v (maybeWriteInit (ioInit io) p2))"
    by (rule undisturbed_maybeWriteInit)
  have "UpdateVideoConfig io c p = maybeWriteInit (ioInit io) p2"
    by (simp add: UpdateVideoConfig_def Let_def p1_def p2_def)
  then show ?thesis using undisturbed_trans [OF undisturbed_trans [OF a b] c] by simp
qed

lemma UpdateVideoConfig_start:
  "inRange (startTSMS p) \<Longrightarrow> inRange (startTSMS (UpdateVideoConfig io c p))"
  by (simp add: UpdateVideoConfig_def Let_def inRange_def)

lemma undisturbed_UpdateAudioConfig:
  "undisturbed (getState v p) (getState v (UpdateAudioConfig io c p))"
proof -
  define p1 where "p1 = (if initWritten p
                   \<and> ((aacSampleRate (aacConfig p) \<noteq> 0
                        \<and> aacSampleRate (aacConfig p) \<noteq> aacSampleRate c)
                       \<or> audioID p = 0)
                then reset False io p else p)"
  define d where "d = (if aacSampleRate c = 0 then ioInfInt64 io
               else roundHalfAway (float64 (1024000 / float64 (of_int (aacSampleRate c)))))"
  define p2 where "p2 = p1\<lparr>aacConfig := c, audioTS := u32 (aacSampleRate c),
                  audioState := (audioState p1)\<lparr>defaultDurMS := (if d = 0 then 20 else d)\<rparr>\<rparr>"
  have a: "undisturbed (getState v p) (getState v p1)"
    using undisturbed_reset [of v p False io] by (simp add: p1_def)
  have b: "undisturbed (getState v p1) (getState v p2)"
    by (simp add: p2_def getState_def undisturbed_def)
  have c: "undisturbed (getState v p2) (getState v (maybeWriteInit (ioInit io) p2))"
    by (rule undisturbed_maybeWriteInit)
  have "UpdateAudioConfig io c p = maybeWriteInit (ioInit io) p2"
    by (simp add: UpdateAudioConfig_def Let_def p1_def p2_def d_def)
  then show ?thesis using undisturbed_trans [OF undisturbed_trans [OF a b] c] by simp
qed

lemma UpdateAudioConfig_start:
  "inRange (startTSMS p) \<Longrightarrow> inRange (startTSMS (UpdateAudioConfig io c p))"
  by (simp add: UpdateAudioConfig_def Let_def inRange_def)

subsection \<open>One call of ingestSample\<close>

lemma prepTrack_fields [simp]:
  "pending (prepTrack p st) = pending st"
  "hasStarted (prepTrack p st) = hasStarted st"
  "lastDTSMS (prepTrack p st) = lastDTSMS st"
  "lastDurMS (prepTrack p st) = lastDurMS st"
  by (simp_all add: prepTrack_def)

lemma jumpDetected_prepTrack [simp]:
  "jumpDetected (prepTrack p st) s = jumpDetected st s"
  by (simp add: jumpDetected_def)

lemma ingestSample_prep:
  "ingestSample io isVideo p sample0 =
     (let st1 = prepTrack p (getState isVideo p);
          p1 = setState isVideo st1 p;
          p2 = (if jumpDetected st1 sample0
                then (let q = reset True io p1
                      in setState isVideo
                           ((getState isVideo q)\<lparr>pending := None, hasStarted := False,
                                                  lastDTSMS := 0\<rparr>) q)
                else p1);
          st2 = getState isVideo p2;
          sample = (case pending st2 of
                      Some pd \<Rightarrow>
                        (if hasStarted st2 \<and> dtsMS sample0 \<le> dtsMS pd
                         then sample0\<lparr>dtsMS := i64 (dtsMS pd + maxInt64 (lastDurMS st2) 1)\<rparr>
                         else sample0)
                    | None \<Rightarrow> sample0)
      in case pending st2 of
           None \<Rightarrow>
             (setState isVideo
                (st2\<lparr>pending := Some sample, hasStarted := True,
                     lastDTSMS := dtsMS sample\<rparr>) p2, None)
         | Some pd \<Rightarrow>
             let d0 = i64 (dtsMS sample - dtsMS pd);
                 d1 = (if d0 \<le> 0 then lastDurMS st2 else d0);
                 d2 = (if d1 \<le> 0 then defaultDurMS st2 else d1);
                 durMS = (if d2 \<le> 0 then 1 else d2)
             in (setState isVideo
                   (st2\<lparr>lastDurMS := durMS, lastDTSMS := dtsMS sample,
                        pending := Some sample\<rparr>) p2,
                 Some (pd, durMS)))"
  by (simp only: ingestSample_def prepTrack_def Let_def)

lemma jumpDetected_far:
  assumes "0 \<le> lastDTSMS st" "lastDTSMS st \<le> 2 ^ 33 + 5000" "inRange (dtsMS s)"
  shows "jumpDetected st s
           = (hasStarted st \<and> lastDTSMS st \<noteq> 0 \<and> \<bar>dtsMS s - lastDTSMS st\<bar> > 5000)"
proof -
  have a: "i64 (dtsMS s - lastDTSMS st) = dtsMS s - lastDTSMS st"
    using assms by (intro i64_id) (auto simp: inRange_def)
  have b: "i64 (lastDTSMS st - dtsMS s) = lastDTSMS st - dtsMS s"
    using assms by (intro i64_id) (auto simp: inRange_def)
  show ?thesis by (auto simp: jumpDetected_def absInt64_def a b)
qed

lemma ingest_jump:
  assumes j: "jumpDetected (getState v p) s"
  shows "snd (ingestSample io v p s) = None"
    and "pending (getState v (fst (ingestSample io v p s))) = Some s"
    and "hasStarted (getState v (fst (ingestSample io v p s)))"
    and "lastDTSMS (getState v (fst (ingestSample io v p s))) = dtsMS s"
    and "lastDurMS (getState v (fst (ingestSample io v p s))) = lastDurMS (getState v p)"
    and "startTSMS (fst (ingestSample io v p s)) = 0"
    and "\<not> started (fst (ingestSample io v p s))"
    and "w \<noteq> v \<Longrightarrow> undisturbed (getState w p) (getState w (fst (ingestSample io v p s)))"
proof -
  define p1 where "p1 = setState v (prepTrack p (getState v p)) p"
  define q where "q = reset True io p1"
  define st2 where "st2 = (getState v q)\<lparr>pending := None, hasStarted := False, lastDTSMS := 0\<rparr>"
  have r: "ingestSample io v p s
             = (setState v (st2\<lparr>pending := Some s, hasStarted := True, lastDTSMS := dtsMS s\<rparr>)
                  (setState v st2 q), None)"
    using j by (simp add: ingestSample_prep Let_def p1_def q_def st2_def)
  have u: "undisturbed (getState v p1) (getState v q)"
    unfolding q_def by (rule undisturbed_reset)
  have ld: "lastDurMS (getState v q) = lastDurMS (getState v p)"
    using u by (simp add: undisturbed_def p1_def)
  show "snd (ingestSample io v p s) = None" by (simp add: r)
  show "pending (getState v (fst (ingestSample io v p s))) = Some s" by (simp add: r)
  show "hasStarted (getState v (fst (ingestSample io v p s)))" by (simp add: r)
  show "lastDTSMS (getState v (fst (ingestSample io v p s))) = dtsMS s" by (simp add: r)
  show "lastDurMS (getState v (fst (ingestSample io v p s))) = lastDurMS (getState v p)"
    by (simp add: r st2_def ld)
  show "startTSMS (fst (ingestSample io v p s)) = 0" by (simp add: r q_def)
  show "\<not> started (fst (ingestSample io v p s))" by (simp add: r q_def)
  show "undisturbed (getState w p) (getState w (fst (ingestSample io v p s)))" if "w \<noteq> v"
  proof -
    have "undisturbed (getState w p1) (getState w q)"
      unfolding q_def by (rule undisturbed_reset)
    then show ?thesis using that by (simp add: r p1_def)
  qed
qed

lemma ingest_first:
  assumes "\<not> jumpDetected (getState v p) s" "pending (getState v p) = None"
  shows "snd (ingestSample io v p s) = None"
    and "pending (getState v (fst (ingestSample io v p s))) = Some s"
    and "hasStarted (getState v (fst (ingestSample io v p s)))"
    and "lastDTSMS (getState v (fst (ingestSample io v p s))) = dtsMS s"
    and "lastDurMS (getState v (fst (ingestSample io v p s))) = lastDurMS (getState v p)"
    and "startTSMS (fst (ingestSample io v p s)) = startTSMS p"
    and "w \<noteq> v \<Longrightarrow> getState w (fst (ingestSample io v p s)) = getState w p"
  using assms by (simp_all add: ingestSample_prep Let_def)

lemma noJump_bound:
  assumes "\<not> jumpDetected st s" "hasStarted st" "lastDTSMS st = a" "0 \<le> a" "a \<le> 2 ^ 33 + 5000"
    "inRange (dtsMS s)" "dtsMS s \<le> a"
  shows "a \<le> dtsMS s + 5000"
  using assms jumpDetected_far [of st s] by (cases "a = 0") (auto simp: inRange_def)

lemma ingest_next:
  assumes nj: "\<not> jumpDetected (getState v p) s"
    and pd: "pending (getState v p) = Some pd"
    and inv: "trackInv (getState v p)"
    and rng: "inRange (dtsMS s)"
  shows "\<exists>d new. snd (ingestSample io v p s) = Some (pd, d)
           \<and> pending (getState v (fst (ingestSample io v p s))) = Some new
           \<and> dtsMS pd < dtsMS new
           \<and> new = (if dtsMS s \<le> dtsMS pd
                     then s\<lparr>dtsMS := dtsMS pd + maxInt64 (lastDurMS (getState v p)) 1\<rparr>
                     else s)
           \<and> trackInv (getState v (fst (ingestSample io v p s)))"
    and "startTSMS (fst (ingestSample io v p s)) = startTSMS p"
    and "w \<noteq> v \<Longrightarrow> getState w (fst (ingestSample io v p s)) = getState w p"
proof -
  let ?st = "getState v p"
  from inv pd have h: "hasStarted ?st" "lastDTSMS ?st = dtsMS pd" "0 \<le> dtsMS pd"
    "dtsMS pd \<le> 2 ^ 33 + 5000" "0 \<le> lastDurMS ?st" "lastDurMS ?st \<le> 2 ^ 32"
    by (auto simp: trackInv_def)
  have r: "0 \<le> dtsMS s" "dtsMS s < 2 ^ 32" using rng by (auto simp: inRange_def)
  show "\<exists>d new. snd (ingestSample io v p s) = Some (pd, d)
           \<and> pending (getState v (fst (ingestSample io v p s))) = Some new
           \<and> dtsMS pd < dtsMS new
           \<and> new = (if dtsMS s \<le> dtsMS pd
                     then s\<lparr>dtsMS := dtsMS pd + maxInt64 (lastDurMS (getState v p)) 1\<rparr>
                     else s)
           \<and> trackInv (getState v (fst (ingestSample io v p s)))"
  proof (cases "dtsMS s \<le> dtsMS pd")
    case True
    have b: "dtsMS pd \<le> dtsMS s + 5000"
      using noJump_bound [OF nj h(1) h(2) h(3) h(4) rng True] .
    define m where "m = maxInt64 (lastDurMS ?st) 1"
    have m: "1 \<le> m" "m \<le> 2 ^ 32" using h by (auto simp: m_def maxInt64_def)
    have w1: "i64 (dtsMS pd + m) = dtsMS pd + m" using h m b r by (intro i64_id) auto
    have w2: "i64 m = m" using m by (simp add: i64_id)
    show ?thesis
      using True pd h m b r
      by (simp add: ingestSample_prep Let_def m_def [symmetric] w1 w2 trackInv_def nj)
  next
    case False
    have w: "i64 (dtsMS s - dtsMS pd) = dtsMS s - dtsMS pd"
      using h r by (intro i64_id) auto
    show ?thesis
      using False pd h r
      by (simp add: ingestSample_prep Let_def w trackInv_def nj)
  qed
  show "startTSMS (fst (ingestSample io v p s)) = startTSMS p"
    using nj pd by (simp add: ingestSample_prep Let_def)
  show "getState w (fst (ingestSample io v p s)) = getState w p" if "w \<noteq> v"
    using nj pd that by (simp add: ingestSample_prep Let_def)
qed

subsection \<open>One call of addSample\<close>

lemma ensureStart_state [simp]: "getState v (ensureStart t p) = getState v p"
  by (simp add: ensureStart_def getState_def)

lemma ensureStart_fields [simp]:
  "initWritten (ensureStart t p) = initWritten p"
  by (simp add: ensureStart_def)

lemma latch_props:
  assumes "inRange (startTSMS p)" "inRange (dtsMS s)"
  shows "getState v (fst (latch p s)) = getState v p"
    and "inRange (startTSMS (fst (latch p s)))"
    and "inRange (dtsMS (snd (latch p s)))"
    and "dtsMS (snd (latch p s))
           = (if dtsMS s < startTSMS (ensureStart (dtsMS s) p)
              then startTSMS (ensureStart (dtsMS s) p) else dtsMS s)"
  using assms by (auto simp: latch_def Let_def ensureStart_def getState_def)

lemma trackInv_entered:
  assumes "trackInv st" "inRange (dtsMS s)" "pending st' = Some s" "hasStarted st'"
    "lastDTSMS st' = dtsMS s" "lastDurMS st' = lastDurMS st"
  shows "trackInv st'"
  using assms by (auto simp: trackInv_def inRange_def)

lemma packagerInv_I:
  assumes "trackInv (getState v p')" "trackInv (getState (\<not> v) p')" "inRange (startTSMS p')"
  shows "packagerInv p'"
  using assms by (cases v) (auto simp: packagerInv_def getState_def)

lemma packagerInv_D:
  assumes "packagerInv p"
  shows "trackInv (getState v p)" "inRange (startTSMS p)"
  using assms by (auto simp: packagerInv_def getState_def)

lemma ingestSample_effect:
  assumes inv: "packagerInv p" and rng: "inRange (dtsMS s)"
  shows "packagerInv (fst (ingestSample io v p s))"
    and "undisturbed (getState (\<not> v) p) (getState (\<not> v) (fst (ingestSample io v p s)))"
    and "pending (getState v p) = None
           \<or> (hasStarted (getState v p) \<and> lastDTSMS (getState v p) \<noteq> 0
               \<and> \<bar>dtsMS s - lastDTSMS (getState v p)\<bar> > 5000)
         \<Longrightarrow> snd (ingestSample io v p s) = None
             \<and> pending (getState v (fst (ingestSample io v p s))) = Some s"
    and "\<not> (pending (getState v p) = None
           \<or> (hasStarted (getState v p) \<and> lastDTSMS (getState v p) \<noteq> 0
               \<and> \<bar>dtsMS s - lastDTSMS (getState v p)\<bar> > 5000))
         \<Longrightarrow> \<exists>pd d new. pending (getState v p) = Some pd
               \<and> snd (ingestSample io v p s) = Some (pd, d)
               \<and> pending (getState v (fst (ingestSample io v p s))) = Some new
               \<and> dtsMS pd < dtsMS new"
proof -
  let ?st = "getState v p"
  let ?p' = "fst (ingestSample io v p s)"
  have ti: "trackInv ?st" "trackInv (getState (\<not> v) p)" "inRange (startTSMS p)"
    using packagerInv_D [OF inv] by auto
  have far: "jumpDetected ?st s
           = (hasStarted ?st \<and> lastDTSMS ?st \<noteq> 0 \<and> \<bar>dtsMS s - lastDTSMS ?st\<bar> > 5000)"
    using ti(1) rng by (intro jumpDetected_far) (auto simp: trackInv_def)
  have z: "inRange 0" by (simp add: inRange_def)
  consider (jump) "jumpDetected ?st s"
    | (first) "\<not> jumpDetected ?st s" "pending ?st = None"
    | (nxt) pd where "\<not> jumpDetected ?st s" "pending ?st = Some pd"
    by (cases "pending ?st") auto
  then have "packagerInv ?p'
     \<and> undisturbed (getState (\<not> v) p) (getState (\<not> v) ?p')
     \<and> (pending ?st = None \<or> jumpDetected ?st s
          \<longrightarrow> snd (ingestSample io v p s) = None \<and> pending (getState v ?p') = Some s)
     \<and> (\<not> (pending ?st = None \<or> jumpDetected ?st s)
          \<longrightarrow> (\<exists>pd d new. pending ?st = Some pd
               \<and> snd (ingestSample io v p s) = Some (pd, d)
               \<and> pending (getState v ?p') = Some new
               \<and> dtsMS pd < dtsMS new))"
  proof cases
    case jump
    note j = ingest_jump [OF jump, where io = io]
    have a: "trackInv (getState v ?p')"
      using trackInv_entered [OF ti(1) rng j(2) j(3) j(4) j(5)] .
    have u: "undisturbed (getState (\<not> v) p) (getState (\<not> v) ?p')"
      using j(8) [of "\<not> v"] by simp
    have b: "trackInv (getState (\<not> v) ?p')"
      using trackInv_undisturbed [OF ti(2) u] .
    have c: "inRange (startTSMS ?p')" using j(6) z by simp
    show ?thesis using packagerInv_I [OF a b c] u j(1) j(2) jump by simp
  next
    case first
    note f = ingest_first [OF first, where io = io]
    have a: "trackInv (getState v ?p')"
      using trackInv_entered [OF ti(1) rng f(2) f(3) f(4) f(5)] .
    have e: "getState (\<not> v) ?p' = getState (\<not> v) p" using f(7) [of "\<not> v"] by simp
    have c: "inRange (startTSMS ?p')" using f(6) ti(3) by simp
    show ?thesis using packagerInv_I [OF a _ c] e ti(2) f(1) f(2) first by simp
  next
    case nxt
    note n = ingest_next [OF nxt(1) nxt(2) ti(1) rng, where io = io]
    from n(1) obtain d new where r: "snd (ingestSample io v p s) = Some (pd, d)"
      "pending (getState v ?p') = Some new" "dtsMS pd < dtsMS new"
      "trackInv (getState v ?p')" by blast
    have e: "getState (\<not> v) ?p' = getState (\<not> v) p" using n(3) [of "\<not> v"] by simp
    have c: "inRange (startTSMS ?p')" using n(2) ti(3) by simp
    show ?thesis using packagerInv_I [OF r(4) _ c] e ti(2) r(1,2,3) nxt by simp
  qed
  then show "packagerInv ?p'"
    and "undisturbed (getState (\<not> v) p) (getState (\<not> v) ?p')"
    and "pending ?st = None
           \<or> (hasStarted ?st \<and> lastDTSMS ?st \<noteq> 0 \<and> \<bar>dtsMS s - lastDTSMS ?st\<bar> > 5000)
         \<Longrightarrow> snd (ingestSample io v p s) = None \<and> pending (getState v ?p') = Some s"
    and "\<not> (pending ?st = None
           \<or> (hasStarted ?st \<and> lastDTSMS ?st \<noteq> 0 \<and> \<bar>dtsMS s - lastDTSMS ?st\<bar> > 5000))
         \<Longrightarrow> \<exists>pd d new. pending ?st = Some pd
               \<and> snd (ingestSample io v p s) = Some (pd, d)
               \<and> pending (getState v ?p') = Some new
               \<and> dtsMS pd < dtsMS new"
    unfolding far by blast+
qed

lemma addSample_effect:
  assumes inv: "packagerInv p" and rng: "inRange (dtsMS s)"
  shows "packagerInv (fst (addSample io w s p))"
    and "w \<noteq> v \<Longrightarrow> undisturbed (getState v p) (getState v (fst (addSample io w s p)))"
    and "\<not> accepts p w \<Longrightarrow> addSample io w s p = (p, None)"
    and "accepts p w \<Longrightarrow>
           addSample io w s p = ingestSample io w (fst (latch p s)) (snd (latch p s))"
proof -
  have st: "inRange (startTSMS p)" using packagerInv_D(2) [OF inv] .
  note l = latch_props [OF st rng]
  have inv1: "packagerInv (fst (latch p s))"
    using inv l(2) l(1) [of True] l(1) [of False] by (simp add: packagerInv_def getState_def)
  show na: "\<not> accepts p w \<Longrightarrow> addSample io w s p = (p, None)"
    by (auto simp: addSample_def accepts_def)
  show ac: "accepts p w \<Longrightarrow>
           addSample io w s p = ingestSample io w (fst (latch p s)) (snd (latch p s))"
    by (auto simp: addSample_def accepts_def split: prod.splits)
  show "packagerInv (fst (addSample io w s p))"
  proof (cases "accepts p w")
    case True
    show ?thesis using ingestSample_effect(1) [OF inv1 l(3), where io = io and v = w] ac [OF True] by simp
  next
    case False
    then show ?thesis using na inv by simp
  qed
  show "undisturbed (getState v p) (getState v (fst (addSample io w s p)))" if "w \<noteq> v"
  proof (cases "accepts p w")
    case True
    have "v = (\<not> w)" using that by auto
    then show ?thesis
      using ingestSample_effect(2) [OF inv1 l(3), where io = io and v = w] ac [OF True] l(1) [of "\<not> w"]
      by simp
  next
    case False
    then show ?thesis using na by simp
  qed
qed

lemma addSample_same:
  assumes inv: "packagerInv p" and rng: "inRange t"
    and s: "dtsMS s = t"
  shows "entering v (if v then VideoSample io t c d k else AudioSample io t d) p = None
         \<Longrightarrow> (\<exists>pd du new. pending (getState v p) = Some pd
                 \<and> snd (addSample io v s p) = Some (pd, du)
                 \<and> pending (getState v (fst (addSample io v s p))) = Some new
                 \<and> dtsMS pd < dtsMS new)
             \<or> addSample io v s p = (p, None)"
    and "entering v (if v then VideoSample io t c d k else AudioSample io t d) p = Some t'
         \<Longrightarrow> snd (addSample io v s p) = None
             \<and> (\<exists>s'. pending (getState v (fst (addSample io v s p))) = Some s'
                      \<and> dtsMS s' = t')"
proof -
  let ?e = "if v then VideoSample io t c d k else AudioSample io t d"
  have es: "eventSample ?e = Some (v, t)" by simp
  have rs: "inRange (dtsMS s)" using rng s by simp
  have st: "inRange (startTSMS p)" using packagerInv_D(2) [OF inv] .
  note l = latch_props [OF st rs]
  note a = addSample_effect [OF inv rs, where io = io and w = v]
  have inv1: "packagerInv (fst (latch p s))"
    using inv l(2) l(1) [of True] l(1) [of False] by (simp add: packagerInv_def getState_def)
  let ?t1 = "dtsMS (snd (latch p s))"
  let ?st = "getState v p"
  let ?enter = "pending ?st = None
           \<or> (hasStarted ?st \<and> lastDTSMS ?st \<noteq> 0 \<and> \<bar>?t1 - lastDTSMS ?st\<bar> > 5000)"
  have en: "entering v ?e p = (if accepts p v then (if ?enter then Some ?t1 else None) else None)"
    unfolding entering_def es using l(4) s by (simp add: Let_def)
  note i = ingestSample_effect [OF inv1 l(3), where io = io and v = v]
  show "(\<exists>pd du new. pending (getState v p) = Some pd
                 \<and> snd (addSample io v s p) = Some (pd, du)
                 \<and> pending (getState v (fst (addSample io v s p))) = Some new
                 \<and> dtsMS pd < dtsMS new)
             \<or> addSample io v s p = (p, None)"
    if "entering v ?e p = None"
  proof (cases "accepts p v")
    case True
    then have "\<not> ?enter" using that en by (simp split: if_splits)
    then show ?thesis using i(4) a(4) [OF True] l(1) [of v] by simp
  next
    case False
    then show ?thesis using a(3) by simp
  qed
  show "snd (addSample io v s p) = None
             \<and> (\<exists>s'. pending (getState v (fst (addSample io v s p))) = Some s'
                      \<and> dtsMS s' = t')"
    if "entering v ?e p = Some t'"
  proof -
    from that en have ac: "accepts p v" and e: "?enter" and t: "t' = ?t1"
      by (auto split: if_splits)
    show ?thesis using i(3) a(4) [OF ac] l(1) [of v] e t by simp
  qed
qed

subsection \<open>One call on the packager\<close>

lemma packagerInv_undisturbed:
  assumes "packagerInv p" "\<And>v. undisturbed (getState v p) (getState v p')"
    "inRange (startTSMS p')"
  shows "packagerInv p'"
proof -
  have "trackInv (getState v p')" for v
    using trackInv_undisturbed [OF packagerInv_D(1) [OF assms(1)] assms(2)] .
  then show ?thesis using packagerInv_I [of True p'] assms(3) by simp
qed

lemma step_sample:
  assumes inv: "packagerInv p" and rng: "inRange t"
    and e: "e = (if w then VideoSample io t c d k else AudioSample io t d)"
    and s: "dtsMS s = t"
    and st: "step e p = (fst (addSample io w s p),
                         case snd (addSample io w s p) of Some r \<Rightarrow> [(w, r)] | None \<Rightarrow> [])"
  shows "packagerInv (fst (step e p))"
    and "entering v e p = None \<Longrightarrow>
           (\<exists>pd du. pending (getState v p) = Some pd
               \<and> ofTrack v (snd (step e p)) = [(pd, du)]
               \<and> (\<forall>new. pending (getState v (fst (step e p))) = Some new
                      \<longrightarrow> dtsMS pd < dtsMS new))
           \<or> (ofTrack v (snd (step e p)) = []
               \<and> undisturbed (getState v p) (getState v (fst (step e p))))"
    and "entering v e p = Some t' \<Longrightarrow>
           ofTrack v (snd (step e p)) = []
           \<and> (\<exists>s'. pending (getState v (fst (step e p))) = Some s' \<and> dtsMS s' = t')"
proof -
  have rs: "inRange (dtsMS s)" using rng s by simp
  note a = addSample_effect [OF inv rs, where io = io and w = w]
  show "packagerInv (fst (step e p))" using a(1) st by simp
  show "(\<exists>pd du. pending (getState v p) = Some pd
               \<and> ofTrack v (snd (step e p)) = [(pd, du)]
               \<and> (\<forall>new. pending (getState v (fst (step e p))) = Some new
                      \<longrightarrow> dtsMS pd < dtsMS new))
           \<or> (ofTrack v (snd (step e p)) = []
               \<and> undisturbed (getState v p) (getState v (fst (step e p))))"
    if n: "entering v e p = None"
  proof (cases "w = v")
    case True
    from addSample_same(1) [OF inv rng s, of v io c d k] n e True
    consider (rel) pd du new where "pending (getState v p) = Some pd"
        "snd (addSample io v s p) = Some (pd, du)"
        "pending (getState v (fst (addSample io v s p))) = Some new" "dtsMS pd < dtsMS new"
      | (skip) "addSample io v s p = (p, None)"
      by auto
    then show ?thesis
    proof cases
      case rel
      then show ?thesis using st True by (simp add: ofTrack_def)
    next
      case skip
      then show ?thesis using st True by (simp add: ofTrack_def)
    qed
  next
    case False
    have "ofTrack v (snd (step e p)) = []"
      using st False by (cases "snd (addSample io w s p)") (auto simp: ofTrack_def)
    then show ?thesis using a(2) [OF False] st by simp
  qed
  show "ofTrack v (snd (step e p)) = []
           \<and> (\<exists>s'. pending (getState v (fst (step e p))) = Some s' \<and> dtsMS s' = t')"
    if y: "entering v e p = Some t'"
  proof -
    have wv: "w = v" using y e by (auto simp: entering_def split: if_splits)
    from addSample_same(2) [OF inv rng s, of v io c d k t'] y e wv
    show ?thesis using st wv by (simp add: ofTrack_def)
  qed
qed

lemma flushTrack_undisturbed:
  "undisturbed (getState w p) (getState w (fst (flushTrack v p)))"
  by (cases v; cases w)
    (simp_all add: flushTrack_def Let_def undisturbed_def getState_def setState_def
       split: option.splits)

lemma flushTrack_start [simp]: "startTSMS (fst (flushTrack v p)) = startTSMS p"
  by (cases v)
    (simp_all add: flushTrack_def Let_def setState_def split: option.splits)

lemma flushTrack_released:
  "snd (flushTrack v p) = Some r \<Longrightarrow>
     pending (getState v p) = Some (fst r)
     \<and> pending (getState v (fst (flushTrack v p))) = None"
  by (cases v)
    (auto simp: flushTrack_def Let_def getState_def setState_def
       split: option.splits if_splits)

lemma flushTrack_other:
  "w \<noteq> v \<Longrightarrow> getState w (fst (flushTrack v p)) = getState w p"
  by (cases v; cases w)
    (simp_all add: flushTrack_def Let_def getState_def setState_def split: option.splits)

lemma Flush_effect:
  shows "undisturbed (getState v p) (getState v (fst (Flush io p)))"
    and "startTSMS (fst (Flush io p)) = startTSMS p"
    and "(\<exists>pd du. pending (getState v p) = Some pd
             \<and> ofTrack v (snd (Flush io p)) = [(pd, du)]
             \<and> pending (getState v (fst (Flush io p))) = None)
         \<or> ofTrack v (snd (Flush io p)) = []"
proof -
  obtain p1 o1 where f1: "flushTrack True p = (p1, o1)" by (cases "flushTrack True p")
  obtain p2 o2 where f2: "flushTrack False p1 = (p2, o2)" by (cases "flushTrack False p1")
  have u1: "undisturbed (getState v p) (getState v p1)"
    using flushTrack_undisturbed [of v p True] f1 by simp
  have u2: "undisturbed (getState v p1) (getState v p2)"
    using flushTrack_undisturbed [of v p1 False] f2 by simp
  have u12: "undisturbed (getState v p) (getState v p2)" using undisturbed_trans [OF u1 u2] .
  have F: "Flush io p =
     (case o1 of
        Some r1 \<Rightarrow> if ioAppendFails io then (p1, [(True, r1)])
                   else (case o2 of Some r2 \<Rightarrow> (p2, [(True, r1), (False, r2)])
                                   | None \<Rightarrow> (p2, [(True, r1)]))
      | None \<Rightarrow> (case o2 of Some r2 \<Rightarrow> (p2, [(False, r2)]) | None \<Rightarrow> (p2, [])))"
    by (simp add: Flush_def f1 f2 split: option.splits)
  show "undisturbed (getState v p) (getState v (fst (Flush io p)))"
    using u1 u12 by (simp add: F split: option.splits)
  show "startTSMS (fst (Flush io p)) = startTSMS p"
    using flushTrack_start [of True p] flushTrack_start [of False p1] f1 f2
    by (simp add: F split: option.splits)
  have vT: "o1 = Some r \<Longrightarrow> pending (getState True p) = Some (fst r)
              \<and> pending (getState True p1) = None \<and> pending (getState True p2) = None" for r
    using flushTrack_released [of True p r] flushTrack_other [of True False p1] f1 f2
    by simp
  have vF: "o2 = Some r \<Longrightarrow> pending (getState False p) = Some (fst r)
              \<and> pending (getState False p2) = None" for r
    using flushTrack_released [of False p1 r] flushTrack_other [of False True p] f1 f2
    by simp
  show "(\<exists>pd du. pending (getState v p) = Some pd
             \<and> ofTrack v (snd (Flush io p)) = [(pd, du)]
             \<and> pending (getState v (fst (Flush io p))) = None)
         \<or> ofTrack v (snd (Flush io p)) = []"
  proof (cases v)
    case True
    show ?thesis
    proof (cases o1)
      case None
      then show ?thesis using True by (simp add: F ofTrack_def split: option.splits)
    next
      case (Some r1)
      obtain pd du where r1: "r1 = (pd, du)" by (cases r1)
      show ?thesis using vT [OF Some] True Some r1
        by (simp add: F ofTrack_def split: option.splits)
    qed
  next
    case False
    show ?thesis
    proof (cases o2)
      case None
      then show ?thesis using False by (simp add: F ofTrack_def split: option.splits)
    next
      case (Some r2)
      obtain pd du where r2: "r2 = (pd, du)" by (cases r2)
      show ?thesis using vF [OF Some] False Some r2
        by (simp add: F ofTrack_def split: option.splits)
    qed
  qed
qed

lemma step_effect:
  assumes inv: "packagerInv p" and rng: "eventInRange e"
  shows "packagerInv (fst (step e p))"
    and "entering v e p = None \<Longrightarrow>
           (\<exists>pd du. pending (getState v p) = Some pd
               \<and> ofTrack v (snd (step e p)) = [(pd, du)]
               \<and> (\<forall>new. pending (getState v (fst (step e p))) = Some new
                      \<longrightarrow> dtsMS pd < dtsMS new))
           \<or> (ofTrack v (snd (step e p)) = []
               \<and> undisturbed (getState v p) (getState v (fst (step e p))))"
    and "entering v e p = Some t' \<Longrightarrow>
           ofTrack v (snd (step e p)) = []
           \<and> (\<exists>s'. pending (getState v (fst (step e p))) = Some s' \<and> dtsMS s' = t')"
proof -
  have "packagerInv (fst (step e p))
     \<and> (entering v e p = None \<longrightarrow>
           (\<exists>pd du. pending (getState v p) = Some pd
               \<and> ofTrack v (snd (step e p)) = [(pd, du)]
               \<and> (\<forall>new. pending (getState v (fst (step e p))) = Some new
                      \<longrightarrow> dtsMS pd < dtsMS new))
           \<or> (ofTrack v (snd (step e p)) = []
               \<and> undisturbed (getState v p) (getState v (fst (step e p)))))
     \<and> (\<forall>t'. entering v e p = Some t' \<longrightarrow>
           ofTrack v (snd (step e p)) = []
           \<and> (\<exists>s'. pending (getState v (fst (step e p))) = Some s' \<and> dtsMS s' = t'))"
  proof (cases e)
    case (VideoSample io t c d k)
    let ?s = "\<lparr>dtsMS = t, ctsMS = c, data = d, isKey = k\<rparr>"
    have r: "inRange t" using rng VideoSample by simp
    have e: "e = (if True then VideoSample io t c d k else AudioSample io t d)"
      using VideoSample by simp
    have st: "step e p = (fst (addSample io True ?s p),
                          case snd (addSample io True ?s p) of Some r \<Rightarrow> [(True, r)]
                          | None \<Rightarrow> [])"
      using VideoSample by (simp add: AddVideoSample_def split: prod.splits option.splits)
    have sd: "dtsMS ?s = t" by simp
    show ?thesis
      using step_sample(1) [OF inv r e sd st] step_sample(2) [OF inv r e sd st, where v = v]
        step_sample(3) [OF inv r e sd st, where v = v]
      by blast
  next
    case (AudioSample io t d)
    let ?s = "\<lparr>dtsMS = t, ctsMS = 0, data = d, isKey = False\<rparr>"
    have r: "inRange t" using rng AudioSample by simp
    have e: "e = (if False then VideoSample io t 0 d False else AudioSample io t d)"
      using AudioSample by simp
    have st: "step e p = (fst (addSample io False ?s p),
                          case snd (addSample io False ?s p) of Some r \<Rightarrow> [(False, r)]
                          | None \<Rightarrow> [])"
      using AudioSample by (simp add: AddAudioSample_def split: prod.splits option.splits)
    have sd: "dtsMS ?s = t" by simp
    show ?thesis
      using step_sample(1) [OF inv r e sd st] step_sample(2) [OF inv r e sd st, where v = v]
        step_sample(3) [OF inv r e sd st, where v = v]
      by blast
  next
    case (VideoConfig io c)
    have u: "undisturbed (getState v p) (getState v (UpdateVideoConfig io c p))" for v
      by (rule undisturbed_UpdateVideoConfig)
    have i: "packagerInv (UpdateVideoConfig io c p)"
      using packagerInv_undisturbed [OF inv u]
        UpdateVideoConfig_start [OF packagerInv_D(2) [OF inv]] by simp
    show ?thesis using VideoConfig u i by (simp add: entering_def ofTrack_def)
  next
    case (AudioConfig io c)
    have u: "undisturbed (getState v p) (getState v (UpdateAudioConfig io c p))" for v
      by (rule undisturbed_UpdateAudioConfig)
    have i: "packagerInv (UpdateAudioConfig io c p)"
      using packagerInv_undisturbed [OF inv u]
        UpdateAudioConfig_start [OF packagerInv_D(2) [OF inv]] by simp
    show ?thesis using AudioConfig u i by (simp add: entering_def ofTrack_def)
  next
    case (FlushCall io)
    have u: "undisturbed (getState v p) (getState v (fst (Flush io p)))" for v
      by (rule Flush_effect(1))
    have i: "packagerInv (fst (Flush io p))"
      using packagerInv_undisturbed [OF inv u] Flush_effect(2) [of io p]
        packagerInv_D(2) [OF inv] by simp
    have n: "entering v e p = None" using FlushCall by (simp add: entering_def)
    show ?thesis using FlushCall u i n Flush_effect(3) [of v p io] by auto
  qed
  then show "packagerInv (fst (step e p))"
    and "entering v e p = None \<Longrightarrow>
           (\<exists>pd du. pending (getState v p) = Some pd
               \<and> ofTrack v (snd (step e p)) = [(pd, du)]
               \<and> (\<forall>new. pending (getState v (fst (step e p))) = Some new
                      \<longrightarrow> dtsMS pd < dtsMS new))
           \<or> (ofTrack v (snd (step e p)) = []
               \<and> undisturbed (getState v p) (getState v (fst (step e p))))"
    and "entering v e p = Some t' \<Longrightarrow>
           ofTrack v (snd (step e p)) = []
           \<and> (\<exists>s'. pending (getState v (fst (step e p))) = Some s' \<and> dtsMS s' = t')"
    by blast+
qed

subsection \<open>A sequence of calls\<close>

lemma packagerInv_newPackager: "packagerInv (newPackager segmentDuration partDuration resumed)"
  by (simp add: packagerInv_def newPackager_def newTrack_def trackInv_def inRange_def)

lemma released_sorted_aux:
  assumes "packagerInv p"
    and "\<forall>e \<in> set es. eventInRange e"
    and "restartsAbove v prev p es"
    and "\<forall>m pd. prev = Some m \<and> pending (getState v p) = Some pd \<longrightarrow> m < dtsMS pd"
  shows "sorted_wrt (<) (map (\<lambda>r. dtsMS (fst r)) (released v p es))
         \<and> (\<forall>m. prev = Some m \<longrightarrow> (\<forall>r \<in> set (released v p es). m < dtsMS (fst r)))"
  using assms
proof (induction es arbitrary: p prev)
  case Nil
  then show ?case by simp
next
  case (Cons e es)
  let ?p' = "fst (step e p)"
  let ?out = "snd (step e p)"
  have rng: "eventInRange e" and rest: "\<forall>e \<in> set es. eventInRange e"
    using Cons.prems(2) by auto
  note se = step_effect(1) [OF Cons.prems(1) rng]
    step_effect(2) [OF Cons.prems(1) rng, where v = v]
    step_effect(3) [OF Cons.prems(1) rng, where v = v]
  have ra: "restartsAbove v (lastReleased v prev ?out) ?p' es"
    and hd: "case (entering v e p, prev) of (Some t, Some m) \<Rightarrow> m < t | _ \<Rightarrow> True"
    using Cons.prems(3) by auto
  consider (rel) pd du where "entering v e p = None" "pending (getState v p) = Some pd"
      "ofTrack v ?out = [(pd, du)]"
      "\<forall>new. pending (getState v ?p') = Some new \<longrightarrow> dtsMS pd < dtsMS new"
    | (idle) "entering v e p = None" "ofTrack v ?out = []"
        "undisturbed (getState v p) (getState v ?p')"
    | (enter) t s' where "entering v e p = Some t" "ofTrack v ?out = []"
        "pending (getState v ?p') = Some s'" "dtsMS s' = t"
    using se(2) se(3) by (cases "entering v e p") blast+
  then show ?case
  proof cases
    case rel
    have lr: "lastReleased v prev ?out = Some (dtsMS pd)"
      using rel(3) by (simp add: lastReleased_def)
    have i: "\<forall>m pd'. Some (dtsMS pd) = Some m \<and> pending (getState v ?p') = Some pd'
               \<longrightarrow> m < dtsMS pd'"
      using rel(4) by simp
    from Cons.IH [OF se(1) rest ra [unfolded lr] i]
    have ih: "sorted_wrt (<) (map (\<lambda>r. dtsMS (fst r)) (released v ?p' es))"
      "\<forall>r \<in> set (released v ?p' es). dtsMS pd < dtsMS (fst r)" by auto
    have eq: "released v p (e # es) = (pd, du) # released v ?p' es"
      using rel(3) by simp
    have pm: "\<forall>m. prev = Some m \<longrightarrow> m < dtsMS pd"
      using Cons.prems(4) rel(2) by simp
    show ?thesis unfolding eq using ih pm by fastforce
  next
    case idle
    have lr: "lastReleased v prev ?out = prev"
      using idle(2) by (simp add: lastReleased_def)
    have i: "\<forall>m pd. prev = Some m \<and> pending (getState v ?p') = Some pd \<longrightarrow> m < dtsMS pd"
      using Cons.prems(4) idle(3) by (auto simp: undisturbed_def)
    have eq: "released v p (e # es) = released v ?p' es"
      using idle(2) by simp
    show ?thesis unfolding eq using Cons.IH [OF se(1) rest ra [unfolded lr] i] .
  next
    case enter
    have lr: "lastReleased v prev ?out = prev"
      using enter(2) by (simp add: lastReleased_def)
    have i: "\<forall>m pd. prev = Some m \<and> pending (getState v ?p') = Some pd \<longrightarrow> m < dtsMS pd"
      using hd enter(1,3,4) by auto
    have eq: "released v p (e # es) = released v ?p' es"
      using enter(2) by simp
    show ?thesis unfolding eq using Cons.IH [OF se(1) rest ra [unfolded lr] i] .
  qed
qed

subsection \<open>The samples released by one track\<close>

text \<open>
  Claim C3 reads: for every sequence of samples fed to a single packager track, the
  dts_ms values of the samples released from the one-sample lookahead are strictly
  increasing: whenever a new sample's dts_ms is less than or equal to the pending
  sample's dts_ms, it is rewritten to pending.dts_ms + max(last_dur_ms, 1) before it
  replaces the pending sample. The rewriting needs a pending sample, and a reset of
  the packager discards it. First run: the video samples 10000, 14000, 18000, 12000,
  12033. The sample 12000 lies more than 5000 ms before the last timestamp 18000:
  \<open>ingestSample\<close> resets the packager, discards the pending sample 18000 and makes
  12000 pending as it is; the video track releases 10000, 14000, 12000. Second run:
  the video samples 10000, 10033, then the audio samples 10000 and 20000, the second of
  which resets the packager, then the video samples 10000, 10033 again: the video
  track releases 10000 twice.
\<close>

theorem ingestSample_jump_counterexample:
  "map (\<lambda>r. dtsMS (fst r)) (released True (livePackager 48000) jumpRun) = [10000, 14000, 12000]
   \<and> \<not> sorted_wrt (<) (map (\<lambda>r. dtsMS (fst r)) (released True (livePackager 48000) jumpRun))
   \<and> map (\<lambda>r. dtsMS (fst r)) (released True (livePackager 48000) resetRun) = [10000, 10000]
   \<and> \<not> sorted_wrt (<) (map (\<lambda>r. dtsMS (fst r)) (released True (livePackager 48000) resetRun))"
  by code_simp

text \<open>
  Claim C3, amended. For every sequence of calls on a packager (video and audio
  samples, video and audio configuration updates, \<open>Flush\<close>) with timestamps in the
  32-bit range of RTMP timestamps, from a state in which no wrap-around is due
  (\<open>packagerInv\<close>), the dts_ms values of the samples that one track releases from its
  one-sample lookahead, by \<open>ingestSample\<close> or by \<open>Flush\<close>, are strictly increasing,
  provided that every sample of the track that enters the empty lookahead has a
  timestamp above that of the sample the track released last. A sample enters the
  empty lookahead when the track holds no pending sample (at the start, after \<open>Flush\<close>
  and after a reset of the packager by a configuration change or by the other track)
  or when the track has started with a last timestamp other than
  0 and the sample lies more than 5000 ms before or after it: then \<open>ingestSample\<close>
  releases nothing, resets the packager, which discards the pending samples of both
  tracks and the start timestamp, and makes the sample pending as it is. In every
  other case \<open>ingestSample\<close> releases the pending sample, and a new sample whose dts_ms
  is less than or equal to that of the pending sample is rewritten to
  pending.dts_ms + max(last_dur_ms, 1), without wrap-around, before it replaces the
  pending sample.
\<close>

theorem ingestSample_released_increasing:
  assumes inv: "packagerInv p"
    and rng: "\<forall>e \<in> set es. eventInRange e"
    and ra: "restartsAbove v None p es"
  shows "sorted_wrt (<) (map (\<lambda>r. dtsMS (fst r)) (released v p es))
         \<and> (\<forall>io s. inRange (dtsMS s) \<longrightarrow>
               (pending (getState v p) = None
                  \<or> (hasStarted (getState v p) \<and> lastDTSMS (getState v p) \<noteq> 0
                      \<and> \<bar>dtsMS s - lastDTSMS (getState v p)\<bar> > 5000)
                \<longrightarrow> snd (ingestSample io v p s) = None
                    \<and> pending (getState v (fst (ingestSample io v p s))) = Some s)
               \<and> (hasStarted (getState v p) \<and> lastDTSMS (getState v p) \<noteq> 0
                      \<and> \<bar>dtsMS s - lastDTSMS (getState v p)\<bar> > 5000
                \<longrightarrow> \<not> started (fst (ingestSample io v p s))
                    \<and> startTSMS (fst (ingestSample io v p s)) = 0
                    \<and> pending (getState (\<not> v) (fst (ingestSample io v p s))) = None)
               \<and> (\<forall>pd. pending (getState v p) = Some pd
                      \<and> \<not> (hasStarted (getState v p) \<and> lastDTSMS (getState v p) \<noteq> 0
                            \<and> \<bar>dtsMS s - lastDTSMS (getState v p)\<bar> > 5000)
                    \<longrightarrow> (\<exists>d. snd (ingestSample io v p s) = Some (pd, d))
                        \<and> pending (getState v (fst (ingestSample io v p s)))
                            = Some (if dtsMS s \<le> dtsMS pd
                                    then s\<lparr>dtsMS := dtsMS pd
                                                      + maxInt64 (lastDurMS (getState v p)) 1\<rparr>
                                    else s)))"
proof -
  let ?st = "getState v p"
  have one: "sorted_wrt (<) (map (\<lambda>r. dtsMS (fst r)) (released v p es))"
    using released_sorted_aux [OF inv rng ra] by simp
  have ti: "trackInv ?st" using packagerInv_D(1) [OF inv] .
  have far: "jumpDetected ?st s
           = (hasStarted ?st \<and> lastDTSMS ?st \<noteq> 0 \<and> \<bar>dtsMS s - lastDTSMS ?st\<bar> > 5000)"
    if "inRange (dtsMS s)" for s
    using ti that by (intro jumpDetected_far) (auto simp: trackInv_def)
  have two: "snd (ingestSample io v p s) = None
              \<and> pending (getState v (fst (ingestSample io v p s))) = Some s"
    if "inRange (dtsMS s)" "pending ?st = None
          \<or> (hasStarted ?st \<and> lastDTSMS ?st \<noteq> 0 \<and> \<bar>dtsMS s - lastDTSMS ?st\<bar> > 5000)"
    for io s
    using ingestSample_effect(3) [OF inv that(1), where io = io and v = v] that(2) by blast
  have three: "\<not> started (fst (ingestSample io v p s))
                \<and> startTSMS (fst (ingestSample io v p s)) = 0
                \<and> pending (getState (\<not> v) (fst (ingestSample io v p s))) = None"
    if "inRange (dtsMS s)"
      "hasStarted ?st \<and> lastDTSMS ?st \<noteq> 0 \<and> \<bar>dtsMS s - lastDTSMS ?st\<bar> > 5000"
    for io s
  proof -
    have j: "jumpDetected ?st s" using far [OF that(1)] that(2) by simp
    have "ingestSample io v p s
            = (setState v
                 ((getState v (reset True io (setState v (prepTrack p ?st) p)))
                    \<lparr>pending := Some s, hasStarted := True, lastDTSMS := dtsMS s\<rparr>)
                 (reset True io (setState v (prepTrack p ?st) p)), None)"
      using j by (simp add: ingestSample_prep Let_def)
    then show ?thesis using ingest_jump(6,7) [OF j, of io] by simp
  qed
  have four: "(\<exists>d. snd (ingestSample io v p s) = Some (pd, d))
                \<and> pending (getState v (fst (ingestSample io v p s)))
                    = Some (if dtsMS s \<le> dtsMS pd
                            then s\<lparr>dtsMS := dtsMS pd + maxInt64 (lastDurMS ?st) 1\<rparr>
                            else s)"
    if "inRange (dtsMS s)" "pending ?st = Some pd"
      "\<not> (hasStarted ?st \<and> lastDTSMS ?st \<noteq> 0 \<and> \<bar>dtsMS s - lastDTSMS ?st\<bar> > 5000)"
    for io s pd
  proof -
    have nj: "\<not> jumpDetected ?st s" using far [OF that(1)] that(3) by simp
    show ?thesis using ingest_next(1) [OF nj that(2) ti that(1), of io] by auto
  qed
  show ?thesis using one two three four by blast
qed

theorem ingestSample_released_increasing_witness:
  "packagerInv (livePackager 48000)
   \<and> list_all eventInRange steadyRun
   \<and> restartsAbove True None (livePackager 48000) steadyRun
   \<and> map (\<lambda>r. dtsMS (fst r)) (released True (livePackager 48000) steadyRun)
       = [10000, 10033, 10066, 20033, 20066, 20100, 20133, 20166]
   \<and> sorted_wrt (<) (map (\<lambda>r. dtsMS (fst r)) (released True (livePackager 48000) steadyRun))"
proof -
  have h1: "packagerInv (livePackager 48000)"
    by code_simp
  have h2: "\<forall>e \<in> set steadyRun. eventInRange e"
    by code_simp
  have h3: "restartsAbove True None (livePackager 48000) steadyRun"
    by code_simp
  have e: "map (\<lambda>r. dtsMS (fst r)) (released True (livePackager 48000) steadyRun)
             = [10000, 10033, 10066, 20033, 20066, 20100, 20133, 20166]"
    by code_simp
  have "sorted_wrt (<) (map (\<lambda>r. dtsMS (fst r)) (released True (livePackager 48000) steadyRun))"
    using ingestSample_released_increasing [OF h1 h2 h3] by blast
  then show ?thesis using h1 h2 h3 e by (simp add: list_all_iff)
qed

section \<open>Properties of the archive recorder\<close>

subsection \<open>The offset of a session\<close>

lemma adjustTS_started:
  assumes "sessionStarted r" "0 \<le> sessionOffsetMS r" "sessionOffsetMS r \<le> 2 ^ 62" "inRange t"
  shows "adjustTS r t = (r\<lparr>lastTSMS := max (lastTSMS r) (t + sessionOffsetMS r)\<rparr>, t + sessionOffsetMS r)"
proof -
  have "i64 (t + sessionOffsetMS r) = t + sessionOffsetMS r"
    using assms by (intro i64_id) (auto simp: inRange_def)
  then show ?thesis using assms by (auto simp: adjustTS_def Let_def max_def)
qed

lemma adjustAll_started:
  assumes "sessionStarted r" "0 \<le> sessionOffsetMS r" "sessionOffsetMS r \<le> 2 ^ 62"
    "\<forall>t \<in> set ts. inRange t"
  shows "snd (adjustAll r ts) = map (\<lambda>t. t + sessionOffsetMS r) ts
         \<and> sessionStarted (fst (adjustAll r ts))
         \<and> sessionOffsetMS (fst (adjustAll r ts)) = sessionOffsetMS r
         \<and> lastTSMS r \<le> lastTSMS (fst (adjustAll r ts))
         \<and> lastTSMS (fst (adjustAll r ts)) \<le> max (lastTSMS r) (2 ^ 32 + sessionOffsetMS r)
         \<and> (\<forall>a \<in> set (snd (adjustAll r ts)). a \<le> lastTSMS (fst (adjustAll r ts)))"
  using assms
proof (induction ts arbitrary: r)
  case Nil
  then show ?case by simp
next
  case (Cons t ts)
  let ?r' = "r\<lparr>lastTSMS := max (lastTSMS r) (t + sessionOffsetMS r)\<rparr>"
  have st: "adjustTS r t = (?r', t + sessionOffsetMS r)"
    using adjustTS_started [of r t] Cons.prems by simp
  have ih: "snd (adjustAll ?r' ts) = map (\<lambda>t. t + sessionOffsetMS r) ts
         \<and> sessionStarted (fst (adjustAll ?r' ts))
         \<and> sessionOffsetMS (fst (adjustAll ?r' ts)) = sessionOffsetMS r
         \<and> lastTSMS ?r' \<le> lastTSMS (fst (adjustAll ?r' ts))
         \<and> lastTSMS (fst (adjustAll ?r' ts)) \<le> max (lastTSMS ?r') (2 ^ 32 + sessionOffsetMS r)
         \<and> (\<forall>a \<in> set (snd (adjustAll ?r' ts)). a \<le> lastTSMS (fst (adjustAll ?r' ts)))"
    using Cons.IH [of ?r'] Cons.prems by simp
  have tr: "t < 2 ^ 32" using Cons.prems by (simp add: inRange_def)
  show ?case using ih st tr by (cases "adjustAll ?r' ts") auto
qed

lemma adjustTS_first:
  assumes "\<not> sessionStarted r" "0 \<le> lastTSMS r" "lastTSMS r \<le> 2 ^ 61" "inRange t"
  shows "adjustTS r t =
           (r\<lparr>sessionStarted := True, sessionOffsetMS := sessionOffsetFor (lastTSMS r) t,
              lastTSMS := max (lastTSMS r) (t + sessionOffsetFor (lastTSMS r) t)\<rparr>,
            t + sessionOffsetFor (lastTSMS r) t)"
proof -
  have a: "i64 (lastTSMS r + 1) = lastTSMS r + 1" using assms by (intro i64_id) auto
  have b: "i64 (lastTSMS r + 1 - t) = lastTSMS r + 1 - t"
    using assms by (intro i64_id) (auto simp: inRange_def)
  have c: "i64 (t + (lastTSMS r + 1 - t)) = lastTSMS r + 1" using a by simp
  have d: "i64 t = t" using assms by (intro i64_id) (auto simp: inRange_def)
  show ?thesis using assms
    by (auto simp: adjustTS_def Let_def a b c d sessionOffsetFor_def max_def)
qed

lemma sessionOffsetFor_bounds:
  assumes "0 \<le> l" "inRange t"
  shows "0 \<le> sessionOffsetFor l t" "sessionOffsetFor l t \<le> l + 1"
  using assms by (auto simp: sessionOffsetFor_def inRange_def)

lemma adjustAll_any:
  assumes "0 \<le> sessionOffsetMS r" "sessionOffsetMS r \<le> 2 ^ 60"
    "0 \<le> lastTSMS r" "lastTSMS r \<le> 2 ^ 60" "\<forall>t \<in> set ts. inRange t"
  shows "(\<forall>a \<in> set (snd (adjustAll r ts)). a \<le> lastTSMS (fst (adjustAll r ts)))
         \<and> 0 \<le> lastTSMS (fst (adjustAll r ts))
         \<and> lastTSMS (fst (adjustAll r ts)) \<le> 2 ^ 61"
proof (cases ts)
  case Nil
  then show ?thesis using assms by simp
next
  case (Cons t ts')
  show ?thesis
  proof (cases "sessionStarted r")
    case True
    from adjustAll_started [of r ts] True assms
    show ?thesis by auto
  next
    case False
    let ?o = "sessionOffsetFor (lastTSMS r) t"
    let ?r' = "r\<lparr>sessionStarted := True, sessionOffsetMS := ?o,
              lastTSMS := max (lastTSMS r) (t + ?o)\<rparr>"
    have tr: "inRange t" "\<forall>t \<in> set ts'. inRange t" using assms Cons by auto
    have st: "adjustTS r t = (?r', t + ?o)"
      using adjustTS_first [of r t] False assms tr by simp
    have ob: "0 \<le> ?o" "?o \<le> lastTSMS r + 1"
      using sessionOffsetFor_bounds [of "lastTSMS r" t] assms tr by auto
    have t32: "0 \<le> t" "t < 2 ^ 32" using tr by (auto simp: inRange_def)
    from adjustAll_started [of ?r' ts'] ob assms tr
    have run: "lastTSMS ?r' \<le> lastTSMS (fst (adjustAll ?r' ts'))"
      "lastTSMS (fst (adjustAll ?r' ts')) \<le> max (lastTSMS ?r') (2 ^ 32 + ?o)"
      "\<forall>a \<in> set (snd (adjustAll ?r' ts')). a \<le> lastTSMS (fst (adjustAll ?r' ts'))"
      by auto
    have eq: "adjustAll r ts = (fst (adjustAll ?r' ts'), (t + ?o) # snd (adjustAll ?r' ts'))"
      using Cons st by (cases "adjustAll ?r' ts'") simp
    show ?thesis using run ob t32 assms unfolding eq by auto
  qed
qed

text \<open>
  What \<open>adjustTS\<close> achieves: after \<open>StartSession\<close> the first sample t0 of the session
  sets the offset max(0, (last_ts + 1) - t0) if last_ts > 0, the offset is added to
  every timestamp of the session, and every timestamp of the session that is not
  below t0 is returned above last_ts, the largest timestamp that \<open>adjustTS\<close> has
  returned before.
\<close>

lemma adjustTS_offset:
  assumes r0: "0 \<le> sessionOffsetMS r0" "sessionOffsetMS r0 \<le> 2 ^ 60"
              "0 \<le> lastTSMS r0" "lastTSMS r0 \<le> 2 ^ 60"
    and pre: "\<forall>t \<in> set pre. inRange t"
    and post: "\<forall>t \<in> set (t0 # ts). inRange t"
    and r1: "r1 = fst (adjustAll r0 pre)"
    and off: "off = sessionOffsetFor (lastTSMS r1) t0"
  shows "snd (adjustAll (StartSession r1) (t0 # ts)) = map (\<lambda>t. t + off) (t0 # ts)
         \<and> (\<forall>a \<in> set (snd (adjustAll r0 pre)). a \<le> lastTSMS r1)
         \<and> (0 < lastTSMS r1 \<longrightarrow>
              (\<forall>t \<in> set (t0 # ts). t0 \<le> t \<longrightarrow>
                 lastTSMS r1 < t + off
                 \<and> (\<forall>a \<in> set (snd (adjustAll r0 pre)). a < t + off)))"
proof -
  from adjustAll_any [OF r0 pre] r1
  have b: "\<forall>a \<in> set (snd (adjustAll r0 pre)). a \<le> lastTSMS r1"
    "0 \<le> lastTSMS r1" "lastTSMS r1 \<le> 2 ^ 61" by auto
  let ?s = "StartSession r1"
  have s: "\<not> sessionStarted ?s" "lastTSMS ?s = lastTSMS r1" by (simp_all add: StartSession_def)
  have tr: "inRange t0" "\<forall>t \<in> set ts. inRange t" using post by auto
  let ?r' = "?s\<lparr>sessionStarted := True, sessionOffsetMS := off,
              lastTSMS := max (lastTSMS r1) (t0 + off)\<rparr>"
  have st: "adjustTS ?s t0 = (?r', t0 + off)"
    using adjustTS_first [of ?s t0] s b tr off by simp
  have ob: "0 \<le> off" "off \<le> lastTSMS r1 + 1"
    using sessionOffsetFor_bounds [of "lastTSMS r1" t0] b tr off by auto
  from adjustAll_started [of ?r' ts] ob b tr
  have run: "snd (adjustAll ?r' ts) = map (\<lambda>t. t + off) ts" by auto
  have eq: "snd (adjustAll ?s (t0 # ts)) = (t0 + off) # snd (adjustAll ?r' ts)"
    using st by (cases "adjustAll ?r' ts") simp
  have one: "snd (adjustAll ?s (t0 # ts)) = map (\<lambda>t. t + off) (t0 # ts)"
    using eq run by simp
  have gt: "0 < lastTSMS r1 \<Longrightarrow> lastTSMS r1 < t0 + off"
    using off by (auto simp: sessionOffsetFor_def)
  have three: "0 < lastTSMS r1 \<longrightarrow>
              (\<forall>t \<in> set (t0 # ts). t0 \<le> t \<longrightarrow>
                 lastTSMS r1 < t + off
                 \<and> (\<forall>a \<in> set (snd (adjustAll r0 pre)). a < t + off))"
    using gt b(1) by fastforce
  show ?thesis using one b(1) three by blast
qed

subsection \<open>The timestamps written to the archive\<close>

text \<open>
  Claim C7 reads: for every sequence of recorder sessions separated by start_session
  calls, the first sample of each new session computes
  session_offset = max(0, (last_ts + 1) - sample_ts), the offset is added to every
  timestamp of that session, and therefore every adjusted post-reconnect timestamp
  written to the archive is strictly greater than the last pre-disconnect timestamp.
  The recorder does not achieve this. \<open>addSample\<close> passes the timestamp that
  \<open>adjustTS\<close> returns to \<open>ingestSample\<close>, which rewrites a timestamp that is not above
  that of the pending sample, and \<open>lastTSMS\<close> does not follow the rewriting. First
  session: the video samples 0, 33, 66, 66 and the flush at the disconnect. The
  second 66 is rewritten to 99 and written to the archive, while \<open>lastTSMS\<close> stays 66.
  Second session: the first sample 0 gets the offset 67 and is written with the
  timestamp 67, below 99; the next sample 33 is written with 100.
\<close>

theorem recorder_reconnect_not_monotone:
  "lastTSMS (recRun liveRecorder firstSession) = 66
   \<and> map (\<lambda>x. dtsMS (fst (snd x))) (archived liveRecorder firstSession) = [0, 33, 66, 99]
   \<and> sessionOffsetMS (recRun liveRecorder (firstSession @ [RecStartSession, rv 0])) = 67
   \<and> map (\<lambda>x. dtsMS (fst (snd x))) (archived liveRecorder (firstSession @ secondSession))
       = [0, 33, 66, 99, 67, 100]
   \<and> map (\<lambda>x. msToTimescale64 (dtsMS (fst (snd x))) 90000)
         (archived liveRecorder (firstSession @ secondSession))
       = [0, 2970, 5940, 8910, 6030, 9000]
   \<and> \<not> sorted_wrt (<)
         (map (\<lambda>x. dtsMS (fst (snd x))) (archived liveRecorder (firstSession @ secondSession)))"
  by code_simp

section \<open>Properties of the codec parsers\<close>

lemma byte_less: "unat (b :: byte) < 256"
  using unsigned_less [of b, where 'a = nat] by simp

lemma u16_decode:
  fixes hi lo :: byte
  shows "unat hi * 256 + unat lo < 65536"
    and "of_nat ((unat hi * 256 + unat lo) div 256) = hi"
    and "of_nat ((unat hi * 256 + unat lo) mod 256) = lo"
proof -
  have h: "unat hi < 256" "unat lo < 256" by (rule byte_less)+
  show "unat hi * 256 + unat lo < 65536" using h by simp
  have "(unat hi * 256 + unat lo) div 256 = unat hi" using h by simp
  then show "of_nat ((unat hi * 256 + unat lo) div 256) = hi" by simp
  have "(unat hi * 256 + unat lo) mod 256 = unat lo" using h by simp
  then show "of_nat ((unat hi * 256 + unat lo) mod 256) = lo" by simp
qed

lemma u16_encode:
  assumes "n < 65536"
  shows "unat (of_nat (n div 256) :: byte) * 256 + unat (of_nat (n mod 256) :: byte) = n"
proof -
  have "n div 256 < 256" using assms by simp
  then have a: "unat (of_nat (n div 256) :: byte) = n div 256"
    by (simp add: unat_of_nat)
  have b: "unat (of_nat (n mod 256) :: byte) = n mod 256"
    by (simp add: unat_of_nat)
  show ?thesis unfolding a b by simp
qed

lemma drop_append_eq:
  assumes "drop n xs = a @ b"
  shows "drop (n + length a) xs = b"
proof -
  have "drop (length a) (drop n xs) = b" using assms by simp
  then show ?thesis by (simp add: add.commute)
qed

lemma length_of_drop:
  assumes "drop n xs = a @ b" "a \<noteq> []"
  shows "n + length a + length b = length xs"
proof -
  have "length xs - n = length a + length b"
    using arg_cong [OF assms(1), of length] by simp
  moreover have "0 < length a" using assms by simp
  ultimately show ?thesis by linarith
qed

lemma take3_drop:
  "take (a + b + c) (drop n xs)
     = take a (drop n xs) @ take b (drop (n + a) xs) @ take c (drop (n + a + b) xs)"
  by (simp add: take_add add.commute add.left_commute)

lemma encodeSets_Cons:
  "encodeSets (x # xs) = of_nat (length x div 256) # of_nat (length x mod 256) # x @ encodeSets xs"
  by (simp add: encodeSets_def)

lemma encodeSets_Nil [simp]: "encodeSets [] = []"
  by (simp add: encodeSets_def)

lemma encodeSets_snoc:
  "encodeSets (xs @ [x]) = encodeSets xs @ of_nat (length x div 256) # of_nat (length x mod 256) # x"
  by (simp add: encodeSets_def)

lemma readParamSets_encoded:
  assumes "drop off buf = encodeSets xs @ rest"
    and "\<forall>x \<in> set xs. length x < 65536"
  shows "readParamSets e1 e2 (length xs) buf off acc
           = Inr (off + length (encodeSets xs), acc @ xs)"
  using assms
proof (induction xs arbitrary: off acc)
  case Nil
  then show ?case by simp
next
  case (Cons x xs)
  let ?hi = "of_nat (length x div 256) :: byte"
  let ?lo = "of_nat (length x mod 256) :: byte"
  have d0: "drop off buf = ?hi # ?lo # x @ encodeSets xs @ rest"
    using Cons.prems(1) by (simp add: encodeSets_Cons)
  have lx: "length x < 65536" using Cons.prems(2) by simp
  have n0: "buf ! off = ?hi" using d0 by (rule nth_via_drop)
  have d1: "drop (off + 1) buf = ?lo # x @ encodeSets xs @ rest"
    using drop_append_eq [of off buf "[?hi]"] d0 by simp
  have n1: "buf ! (off + 1) = ?lo" using d1 by (rule nth_via_drop)
  have d2: "drop (off + 2) buf = x @ encodeSets xs @ rest"
    using drop_append_eq [of off buf "[?hi, ?lo]"] d0 by simp
  have d3: "drop (off + 2 + length x) buf = encodeSets xs @ rest"
    using drop_append_eq [OF d2] .
  have len: "off + 2 + length x + length (encodeSets xs @ rest) = length buf"
    using length_of_drop [of off buf "?hi # ?lo # x" "encodeSets xs @ rest"] d0 by simp
  have u: "unat ?hi * 256 + unat ?lo = length x" using u16_encode [OF lx] .
  have t: "take (length x) (drop (off + 2) buf) = x" using d2 by simp
  have ih: "readParamSets e1 e2 (length xs) buf (off + 2 + length x) (acc @ [x])
              = Inr (off + 2 + length x + length (encodeSets xs), (acc @ [x]) @ xs)"
    using Cons.IH [OF d3] Cons.prems(2) by simp
  have n1': "buf ! Suc off = ?lo" using n1 by simp
  have t': "take (length x) (drop (Suc (Suc off)) buf) = x" using t by simp
  show ?case
    using len ih by (simp add: n0 n1' u t' Let_def encodeSets_Cons)
qed

lemma readParamSets_decoded:
  assumes "readParamSets e1 e2 n buf off acc = Inr (off', acc')" "off \<le> length buf"
  shows "\<exists>xs. length xs = n \<and> acc' = acc @ xs \<and> (\<forall>x \<in> set xs. length x < 65536)
              \<and> off' = off + length (encodeSets xs) \<and> off' \<le> length buf
              \<and> take (length (encodeSets xs)) (drop off buf) = encodeSets xs"
  using assms
proof (induction n arbitrary: off acc)
  case 0
  then show ?case by simp
next
  case (Suc n)
  let ?len = "unat (buf ! off) * 256 + unat (buf ! (off + 1))"
  from Suc.prems have b1: "off + 2 \<le> length buf"
    by (auto simp: Let_def split: if_splits)
  from Suc.prems b1 have b2: "off + 2 + ?len \<le> length buf"
    by (auto simp: Let_def split: if_splits)
  let ?x = "take ?len (drop (off + 2) buf)"
  from Suc.prems b1 b2
  have rec: "readParamSets e1 e2 n buf (off + 2 + ?len) (acc @ [?x]) = Inr (off', acc')"
    by (auto simp: Let_def split: if_splits)
  from Suc.IH [OF rec b2] obtain xs where xs: "length xs = n" "acc' = (acc @ [?x]) @ xs"
    "\<forall>x \<in> set xs. length x < 65536" "off' = off + 2 + ?len + length (encodeSets xs)"
    "off' \<le> length buf"
    "take (length (encodeSets xs)) (drop (off + 2 + ?len) buf) = encodeSets xs"
    by blast
  have lx: "length ?x = ?len" using b2 by simp
  have l16: "?len < 65536" by (rule u16_decode(1))
  have hd2: "take 2 (drop off buf) = [buf ! off, buf ! (off + 1)]"
    using b1 by (simp add: take_Suc_conv_app_nth numeral_2_eq_2 take_drop flip: Cons_nth_drop_Suc)
  have enc1: "encodeSets [?x] = [buf ! off, buf ! (off + 1)] @ ?x"
  proof -
    have "encodeSets [?x] = [of_nat (length ?x div 256), of_nat (length ?x mod 256)] @ ?x"
      unfolding encodeSets_def by (simp del: length_take)
    then show ?thesis unfolding lx u16_decode(2,3) by (simp del: length_take)
  qed
  have split3: "take (2 + ?len + length (encodeSets xs)) (drop off buf)
                  = take 2 (drop off buf) @ take ?len (drop (off + 2) buf)
                    @ take (length (encodeSets xs)) (drop (off + 2 + ?len) buf)"
    by (rule take3_drop)
  have enc: "encodeSets (?x # xs) = take 2 (drop off buf) @ ?x @ encodeSets xs"
    using enc1 hd2 by (simp add: encodeSets_def)
  have "take (length (encodeSets (?x # xs))) (drop off buf) = encodeSets (?x # xs)"
    using split3 xs(6) enc lx b1 by (simp add: encodeSets_Cons)
  moreover have "off' = off + length (encodeSets (?x # xs))"
    using xs(4) lx by (simp add: encodeSets_Cons)
  moreover have "\<forall>x \<in> set (?x # xs). length x < 65536" using xs(3) lx l16 by simp
  moreover have "length (?x # xs) = Suc n" "acc' = acc @ (?x # xs)" using xs by simp_all
  ultimately show ?case using xs(5) b1 by (intro exI [of _ "?x # xs"]) simp
qed

lemma seven_bytes:
  assumes "7 \<le> length (buf :: byte list)"
  obtains d0 d1 d2 d3 d4 d5 rest where "buf = d0 # d1 # d2 # d3 # d4 # d5 # rest" "rest \<noteq> []"
proof -
  from assms obtain d0 r0 where 0: "buf = d0 # r0" "6 \<le> length r0"
    by (cases buf) auto
  then obtain d1 r1 where 1: "r0 = d1 # r1" "5 \<le> length r1" by (cases r0) auto
  then obtain d2 r2 where 2: "r1 = d2 # r2" "4 \<le> length r2" by (cases r1) auto
  then obtain d3 r3 where 3: "r2 = d3 # r3" "3 \<le> length r3" by (cases r2) auto
  then obtain d4 r4 where 4: "r3 = d4 # r4" "2 \<le> length r4" by (cases r3) auto
  then obtain d5 r5 where 5: "r4 = d5 # r5" "1 \<le> length r5" by (cases r4) auto
  then have "r5 \<noteq> []" by auto
  with 0 1 2 3 4 5 that show thesis by blast
qed

lemma parse_header:
  assumes "buf = d0 # d1 # d2 # d3 # d4 # d5 # rest" "rest \<noteq> []"
  shows "ParseAVCDecoderConfig buf =
     (if d0 \<noteq> 1 then Inl VersionNot1
      else if unat ((d4 AND 0x03) + 1) \<noteq> 4
      then Inl (UnsupportedLengthSize (unat ((d4 AND 0x03) + 1)))
      else case readParamSets InvalidSPSLength InvalidSPSData (unat (d5 AND 0x1f)) buf 6 [] of
             Inl e \<Rightarrow> Inl e
           | Inr (offset, sps) \<Rightarrow>
               if length buf < offset + 1 then Inl InvalidPPSCount
               else case readParamSets InvalidPPSLength InvalidPPSData (unat (buf ! offset))
                           buf (offset + 1) [] of
                      Inl e \<Rightarrow> Inl e
                    | Inr (offset2, pps) \<Rightarrow>
                        Inr \<lparr>Profile = d1, Compatibility = d2, Level = d3, LengthSize = 4,
                             SPS = sps, PPS = pps\<rparr>)"
proof -
  have l: "\<not> length buf < 7" using assms by (cases rest) auto
  have n: "buf ! 0 = d0" "buf ! 1 = d1" "buf ! 2 = d2" "buf ! 3 = d3" "buf ! 4 = d4"
    "buf ! 5 = d5" using assms(1) by (simp_all add: numeral_eq_Suc)
  show ?thesis unfolding ParseAVCDecoderConfig_def Let_def n using l by simp
qed

lemma parse_of_record:
  assumes "isAVCRecord buf c"
  shows "ParseAVCDecoderConfig buf = Inr c"
proof -
  from assms obtain b4 b5 rest where
    d: "buf = [1, Profile c, Compatibility c, Level c, b4, b5] @ encodeSets (SPS c)
               @ [of_nat (length (PPS c))] @ encodeSets (PPS c) @ rest"
    and ls: "unat ((b4 AND 0x03) + 1) = 4"
    and ns: "unat (b5 AND 0x1f) = length (SPS c)"
    and np: "length (PPS c) < 256"
    and lens: "\<forall>x \<in> set (SPS c) \<union> set (PPS c). length x < 65536"
    and l4: "LengthSize c = 4"
    unfolding isAVCRecord_def by blast
  let ?r6 = "encodeSets (SPS c) @ [of_nat (length (PPS c))] @ encodeSets (PPS c) @ rest"
  have d': "buf = 1 # Profile c # Compatibility c # Level c # b4 # b5 # ?r6" using d by simp
  have ne: "?r6 \<noteq> []" by simp
  have d6: "drop 6 buf = encodeSets (SPS c) @ ([of_nat (length (PPS c))] @ encodeSets (PPS c) @ rest)"
    using d by simp
  have s1: "readParamSets InvalidSPSLength InvalidSPSData (length (SPS c)) buf 6 []
              = Inr (6 + length (encodeSets (SPS c)), SPS c)"
    using readParamSets_encoded [OF d6, of InvalidSPSLength InvalidSPSData "[]"] lens by simp
  let ?o = "6 + length (encodeSets (SPS c))"
  have do: "drop ?o buf = of_nat (length (PPS c)) # encodeSets (PPS c) @ rest"
    using drop_append_eq [OF d6] by simp
  have no: "buf ! ?o = of_nat (length (PPS c))" using do by (rule nth_via_drop)
  have lo: "\<not> length buf < ?o + 1"
    using length_of_drop [of ?o buf "[of_nat (length (PPS c))]" "encodeSets (PPS c) @ rest"] do
    by simp
  have un: "unat (of_nat (length (PPS c)) :: byte) = length (PPS c)"
    using np by (simp add: unat_of_nat)
  have d7: "drop (?o + 1) buf = encodeSets (PPS c) @ rest"
    using drop_append_eq [of ?o buf "[of_nat (length (PPS c))]"] do by simp
  have s2: "readParamSets InvalidPPSLength InvalidPPSData (length (PPS c)) buf (?o + 1) []
              = Inr (?o + 1 + length (encodeSets (PPS c)), PPS c)"
    using readParamSets_encoded [OF d7, of InvalidPPSLength InvalidPPSData "[]"] lens by simp
  have "ParseAVCDecoderConfig buf =
          Inr \<lparr>Profile = Profile c, Compatibility = Compatibility c, Level = Level c,
               LengthSize = 4, SPS = SPS c, PPS = PPS c\<rparr>"
    unfolding parse_header [OF d' ne] using ls lo
    by (simp only: ns s1 no un s2 sum.case prod.case if_False simp_thms)
  then show ?thesis using l4 by simp
qed

lemma record_of_parse:
  assumes "ParseAVCDecoderConfig buf = Inr c"
  shows "isAVCRecord buf c"
proof -
  from assms have "7 \<le> length buf"
    by (auto simp: ParseAVCDecoderConfig_def split: if_splits)
  then obtain d0 d1 d2 d3 d4 d5 rest where
    d: "buf = d0 # d1 # d2 # d3 # d4 # d5 # rest" and ne: "rest \<noteq> []"
    by (rule seven_bytes)
  note p = assms [unfolded parse_header [OF d ne]]
  from p have v: "d0 = 1" and ls: "unat ((d4 AND 0x03) + 1) = 4"
    by (auto split: if_splits)
  from p v ls obtain offset sps where
    s1: "readParamSets InvalidSPSLength InvalidSPSData (unat (d5 AND 0x1f)) buf 6 []
           = Inr (offset, sps)"
    by (auto split: if_splits sum.splits)
  have l6: "6 \<le> length buf" using d by simp
  from readParamSets_decoded [OF s1 l6] have
    x1: "length sps = unat (d5 AND 0x1f)" "\<forall>x \<in> set sps. length x < 65536"
    "offset = 6 + length (encodeSets sps)" "offset \<le> length buf"
    "take (length (encodeSets sps)) (drop 6 buf) = encodeSets sps"
    by auto
  from p v ls s1 have lo: "offset < length buf"
    by (auto split: if_splits sum.splits)
  from p v ls s1 lo obtain offset2 pps where
    s2: "readParamSets InvalidPPSLength InvalidPPSData (unat (buf ! offset)) buf (offset + 1) []
           = Inr (offset2, pps)"
    and c: "c = \<lparr>Profile = d1, Compatibility = d2, Level = d3, LengthSize = 4,
                  SPS = sps, PPS = pps\<rparr>"
    by (auto split: if_splits sum.splits)
  have l7: "offset + 1 \<le> length buf" using lo by simp
  from readParamSets_decoded [OF s2 l7] have
    x2: "length pps = unat (buf ! offset)" "\<forall>x \<in> set pps. length x < 65536"
    "offset2 = offset + 1 + length (encodeSets pps)" "offset2 \<le> length buf"
    "take (length (encodeSets pps)) (drop (offset + 1) buf) = encodeSets pps"
    by auto
  have a1: "drop 6 buf = encodeSets sps @ drop offset buf"
    using append_take_drop_id [of "length (encodeSets sps)" "drop 6 buf"] x1(3,5)
    by (simp add: add.commute)
  have a2: "drop offset buf = buf ! offset # drop (offset + 1) buf"
    using lo by (simp add: Cons_nth_drop_Suc)
  have a3: "drop (offset + 1) buf = encodeSets pps @ drop offset2 buf"
    using append_take_drop_id [of "length (encodeSets pps)" "drop (offset + 1) buf"] x2(3,5)
    by (simp add: add.commute)
  have r: "rest = drop 6 buf" using d by simp
  have np: "length pps < 256" using x2(1) byte_less [of "buf ! offset"] by simp
  have on: "of_nat (length pps) = buf ! offset" using x2(1) by simp
  have "buf = [1, Profile c, Compatibility c, Level c, d4, d5] @ encodeSets (SPS c)
               @ [of_nat (length (PPS c))] @ encodeSets (PPS c) @ drop offset2 buf"
    using d v c r a1 a2 a3 on by simp
  then show ?thesis
    unfolding isAVCRecord_def using ls x1 x2 np c by (intro exI [of _ d4] exI [of _ d5] exI) auto
qed

text \<open>
  Claim C8. For every input byte string, \<open>ParseAVCDecoderConfig\<close> succeeds with the
  configuration c exactly when the input is a complete record: byte 0 is 1, bytes 1, 2
  and 3 are the profile, compatibility and level of c, the low two bits of byte 4 plus
  one give the length size 4, the low five bits of byte 5 give the number of SPS, each
  SPS follows as a big-endian 16-bit length and that many bytes of payload, then one byte
  with the number of PPS and each PPS in the same way, with the payloads of c in the
  order they appear. The other bits of bytes 4 and 5 and any bytes after the last PPS
  are unconstrained. In every other case (a version byte that is not 1, another length
  size, or a buffer that ends before the declared sets do) it returns an error.
\<close>

theorem ParseAVCDecoderConfig_iff:
  "(ParseAVCDecoderConfig buf = Inr c \<longleftrightarrow> isAVCRecord buf c)
   \<and> ((\<exists>e. ParseAVCDecoderConfig buf = Inl e) \<longleftrightarrow> (\<forall>c. \<not> isAVCRecord buf c))"
proof -
  have a: "ParseAVCDecoderConfig buf = Inr c \<longleftrightarrow> isAVCRecord buf c" for c
    using parse_of_record record_of_parse by blast
  have "(\<exists>e. ParseAVCDecoderConfig buf = Inl e) \<longleftrightarrow> (\<forall>c. ParseAVCDecoderConfig buf \<noteq> Inr c)"
    by (cases "ParseAVCDecoderConfig buf") auto
  then show ?thesis using a by simp
qed

theorem ParseAVCDecoderConfig_iff_witness:
  "ParseAVCDecoderConfig demoAVCRecord = Inr demoAVCConfig
   \<and> isAVCRecord demoAVCRecord demoAVCConfig
   \<and> ParseAVCDecoderConfig (take 9 demoAVCRecord) = Inl InvalidSPSData
   \<and> (\<forall>c. \<not> isAVCRecord (take 9 demoAVCRecord) c)"
proof -
  have a: "ParseAVCDecoderConfig demoAVCRecord = Inr demoAVCConfig"
    by code_simp
  have b: "ParseAVCDecoderConfig (take 9 demoAVCRecord) = Inl InvalidSPSData"
    by code_simp
  show ?thesis
    using a b ParseAVCDecoderConfig_iff [of demoAVCRecord demoAVCConfig]
      ParseAVCDecoderConfig_iff [of "take 9 demoAVCRecord"]
    by blast
qed

section \<open>Properties of the admission policy\<close>

lemmas reasons = ReasonKeyInvalid_def ReasonCodecUnsupported_def ReasonResolutionTooBig_def
  ReasonGOPTooLong_def ReasonNoKeyframeTimeout_def ReasonAudioUnsupported_def

text \<open>
  Claim C1, as stated, at two inputs. A result of width 4096 and height 0 under
  max_w = 1920 has width > max_w, and a result with gop_seconds = 10 under
  max_gop_seconds = 0 and on_gop_too_long = "reject" has
  gop_seconds > max_gop_seconds; no earlier check fires in either. The claim has them
  rejected with RESOLUTION_TOO_LARGE and GOP_TOO_LONG; \<open>Evaluate\<close> accepts both: the
  resolution check is made only when width and height are both positive, the GOP check
  only when max_gop_seconds and gop_seconds are both positive.
\<close>

theorem Evaluate_guard_counterexample:
  "Width (demoInspect\<lparr>Width := 4096, Height := 0\<rparr>) > MaxWidth demoPolicy
   \<and> Evaluate demoPolicy (demoInspect\<lparr>Width := 4096, Height := 0\<rparr>)
       = emptyResult DecisionAccept
   \<and> GOPSeconds (demoInspect\<lparr>GOPSeconds := 10\<rparr>) > MaxGOPSeconds (demoPolicy\<lparr>MaxGOPSeconds := 0\<rparr>)
   \<and> Evaluate (demoPolicy\<lparr>MaxGOPSeconds := 0\<rparr>) (demoInspect\<lparr>GOPSeconds := 10\<rparr>)
       = emptyResult DecisionAccept"
  by (simp add: Evaluate_def demoPolicy_def demoInspect_def)

lemma violation_unfold:
  "violation c r 1 = (RejectIfVideoNotH264 c \<and> VideoCodec r \<noteq> ''H264'')"
  "violation c r (Suc 0) = (RejectIfVideoNotH264 c \<and> VideoCodec r \<noteq> ''H264'')"
  "violation c r 2 = (Width r > 0 \<and> Height r > 0
                       \<and> (Width r > MaxWidth c \<or> Height r > MaxHeight c))"
  "violation c r 3 = (\<not> KeyframeReceived r)"
  "violation c r 4 = (AudioCodec r = [] \<and> \<not> AllowNoAudio c)"
  "violation c r 5 = (RejectIfAudioNotAAC c \<and> AudioCodec r \<noteq> [] \<and> AudioCodec r \<noteq> ''AAC'')"
  "violation c r 6 = (MaxGOPSeconds c > 0 \<and> GOPSeconds r > 0
                       \<and> GOPSeconds r > MaxGOPSeconds c)"
  by (simp_all add: violation_def)

lemma Evaluate_at_first:
  assumes k: "k \<in> {1..6}" and v: "violation c r k"
    and nv: "\<forall>j \<in> {1..<k}. \<not> violation c r j"
  shows "(Decision (Evaluate c r), Reason (Evaluate c r)) = verdict c k"
proof -
  from k consider "k = 1" | "k = 2" | "k = 3" | "k = 4" | "k = 5" | "k = 6"
    by (auto simp: numeral_eq_Suc le_Suc_eq)
  then show ?thesis
  proof cases
    case 1
    with v show ?thesis
      by (simp add: violation_unfold Evaluate_def verdict_def emptyResult_def reasons)
  next
    case 2
    with nv have "\<not> violation c r 1" by simp
    with v 2 show ?thesis
      by (simp add: violation_unfold Evaluate_def verdict_def emptyResult_def reasons)
  next
    case 3
    with nv have "\<not> violation c r 1" "\<not> violation c r 2" by simp_all
    with v 3 show ?thesis
      by (simp add: violation_unfold Evaluate_def verdict_def emptyResult_def reasons)
  next
    case 4
    with nv have "\<not> violation c r 1" "\<not> violation c r 2" "\<not> violation c r 3" by simp_all
    with v 4 show ?thesis
      by (simp add: violation_unfold Evaluate_def verdict_def emptyResult_def reasons)
  next
    case 5
    with nv have "\<not> violation c r 1" "\<not> violation c r 2" "\<not> violation c r 3"
      "\<not> violation c r 4" by simp_all
    with v 5 show ?thesis
      by (simp add: violation_unfold Evaluate_def verdict_def emptyResult_def reasons)
  next
    case 6
    with nv have "\<not> violation c r 1" "\<not> violation c r 2" "\<not> violation c r 3"
      "\<not> violation c r 4" "\<not> violation c r 5" by simp_all
    with v 6 show ?thesis
      by (simp add: violation_unfold Evaluate_def verdict_def emptyResult_def reasons)
  qed
qed

lemma Evaluate_no_violation:
  assumes "\<forall>k \<in> {1..6}. \<not> violation c r k"
  shows "Evaluate c r = emptyResult DecisionAccept"
proof -
  from assms have "\<not> violation c r 1" "\<not> violation c r 2" "\<not> violation c r 3"
    "\<not> violation c r 4" "\<not> violation c r 5" "\<not> violation c r 6" by simp_all
  then show ?thesis
    unfolding violation_unfold Evaluate_def by (simp only: if_False simp_thms split: if_splits)
qed

text \<open>
  Claim C1, amended. For every inspector result, \<open>Evaluate\<close> applies six checks in the
  documented order and returns the decision and reason of the first check that fires
  (\<open>violation c r k\<close> says that check k fires, \<open>verdict c k\<close> is its outcome):
  (1) reject CODEC_UNSUPPORTED when reject_if_video_not_h264 and the video codec is not
  "H264"; (2) reject RESOLUTION_TOO_LARGE when width and height are both positive and
  width > max_w or height > max_h; (3) reject NO_KEYFRAME_TIMEOUT when no keyframe was
  received; (4) reject AUDIO_UNSUPPORTED when the audio codec is empty and audio is
  required; (5) reject AUDIO_UNSUPPORTED when reject_if_audio_not_aac and the audio
  codec is neither empty nor "AAC"; (6) when max_gop_seconds and gop_seconds are both
  positive and gop_seconds > max_gop_seconds, reject GOP_TOO_LONG if
  on_gop_too_long = "reject", else return decision DEGRADED with reason GOP_TOO_LONG;
  if no check fires, accept. The outcome depends only on the first check that fires:
  two results with the same first firing check get the same decision and reason, so
  making a later check also violated never changes the reason returned for an
  earlier violation.
\<close>

theorem Evaluate_first_violation:
  "(\<forall>k \<in> {1..6}. violation c r k \<and> (\<forall>j \<in> {1..<k}. \<not> violation c r j) \<longrightarrow>
       (Decision (Evaluate c r), Reason (Evaluate c r)) = verdict c k)
   \<and> ((\<forall>k \<in> {1..6}. \<not> violation c r k) \<longrightarrow> Evaluate c r = emptyResult DecisionAccept)
   \<and> (\<forall>k \<in> {1..6}. violation c r k \<and> (\<forall>j \<in> {1..<k}. \<not> violation c r j)
         \<and> violation c r' k \<and> (\<forall>j \<in> {1..<k}. \<not> violation c r' j) \<longrightarrow>
       (Decision (Evaluate c r'), Reason (Evaluate c r'))
         = (Decision (Evaluate c r), Reason (Evaluate c r)))"
proof (intro conjI ballI impI)
  fix k assume "k \<in> {1..6}" "violation c r k \<and> (\<forall>j \<in> {1..<k}. \<not> violation c r j)"
  then show "(Decision (Evaluate c r), Reason (Evaluate c r)) = verdict c k"
    using Evaluate_at_first by blast
next
  assume "\<forall>k \<in> {1..6}. \<not> violation c r k"
  then show "Evaluate c r = emptyResult DecisionAccept"
    by (rule Evaluate_no_violation)
next
  fix k assume k: "k \<in> {1..6}"
    and h: "violation c r k \<and> (\<forall>j \<in> {1..<k}. \<not> violation c r j)
         \<and> violation c r' k \<and> (\<forall>j \<in> {1..<k}. \<not> violation c r' j)"
  have "(Decision (Evaluate c r), Reason (Evaluate c r)) = verdict c k"
    using Evaluate_at_first [OF k] h by blast
  moreover have "(Decision (Evaluate c r'), Reason (Evaluate c r')) = verdict c k"
    using Evaluate_at_first [OF k] h by blast
  ultimately show "(Decision (Evaluate c r'), Reason (Evaluate c r'))
         = (Decision (Evaluate c r), Reason (Evaluate c r))" by simp
qed

theorem Evaluate_first_violation_witness:
  "violation demoPolicy (demoInspect\<lparr>Width := 4096, Height := 2160\<rparr>) 2
   \<and> violation demoPolicy (demoInspect\<lparr>Width := 4096, Height := 2160, GOPSeconds := 10\<rparr>) 2
   \<and> violation demoPolicy (demoInspect\<lparr>Width := 4096, Height := 2160, GOPSeconds := 10\<rparr>) 6
   \<and> (Decision (Evaluate demoPolicy (demoInspect\<lparr>Width := 4096, Height := 2160\<rparr>)),
       Reason (Evaluate demoPolicy (demoInspect\<lparr>Width := 4096, Height := 2160\<rparr>)))
      = (DecisionReject, ''RESOLUTION_TOO_LARGE'')
   \<and> (Decision (Evaluate demoPolicy
                   (demoInspect\<lparr>Width := 4096, Height := 2160, GOPSeconds := 10\<rparr>)),
       Reason (Evaluate demoPolicy
                 (demoInspect\<lparr>Width := 4096, Height := 2160, GOPSeconds := 10\<rparr>)))
      = (DecisionReject, ''RESOLUTION_TOO_LARGE'')"
proof -
  let ?r = "demoInspect\<lparr>Width := 4096, Height := 2160\<rparr>"
  let ?r' = "demoInspect\<lparr>Width := 4096, Height := 2160, GOPSeconds := 10\<rparr>"
  have k: "(2::nat) \<in> {1..6}" by simp
  have v: "violation demoPolicy ?r 2" "violation demoPolicy ?r' 2" "violation demoPolicy ?r' 6"
    by (simp_all add: violation_unfold demoPolicy_def demoInspect_def)
  have n: "\<forall>j \<in> {1..<2::nat}. \<not> violation demoPolicy ?r j"
    "\<forall>j \<in> {1..<2::nat}. \<not> violation demoPolicy ?r' j"
    by (auto simp: violation_def demoPolicy_def demoInspect_def)
  have vd: "verdict demoPolicy 2 = (DecisionReject, ''RESOLUTION_TOO_LARGE'')"
    by (simp add: verdict_def)
  from Evaluate_first_violation [of demoPolicy ?r ?r'] k v n
  have "(Decision (Evaluate demoPolicy ?r), Reason (Evaluate demoPolicy ?r))
          = verdict demoPolicy 2"
    "(Decision (Evaluate demoPolicy ?r'), Reason (Evaluate demoPolicy ?r'))
          = (Decision (Evaluate demoPolicy ?r), Reason (Evaluate demoPolicy ?r))"
    by blast+
  then show ?thesis using v vd by simp
qed

text \<open>
  Claim C10. If the admission call is made (no debug skip, a non-empty auth URL that
  parses, a request that can be built) and completes with status 200, but the body is
  not empty (after trimming white space) and \<open>json.Unmarshal\<close> rejects it,
  \<open>Authorize\<close> returns DecisionAccept with empty StreamName, nil AllowRewind and no
  error. DecisionReject is returned exactly for an unparsable auth URL, a failed
  request construction, a transport error or a status other than 200, always with the
  reason KEY_INVALID; every other outcome is DecisionAccept without an error.
\<close>

theorem Authorize_parse_error_accepts:
  "(\<not> DebugSkip p \<and> AuthURL p \<noteq> [] \<and> urlParseOK env \<and> newRequestOK env
     \<and> httpResponse env = Some (200, body) \<and> TrimSpace body \<noteq> [] \<and> jsonObject env = None
    \<longrightarrow> Authorize p env
          = (\<lparr>Decision = DecisionAccept, Reason = [], Message = ''auth response parse error'',
              StreamName = [], AllowRewind = None\<rparr>, None))
   \<and> (Decision (fst (Authorize p env)) = DecisionReject
        \<longleftrightarrow> \<not> DebugSkip p \<and> AuthURL p \<noteq> []
            \<and> (\<not> urlParseOK env \<or> \<not> newRequestOK env \<or> httpResponse env = None
                \<or> (\<exists>status b. httpResponse env = Some (status, b) \<and> status \<noteq> 200)))
   \<and> (Decision (fst (Authorize p env)) = DecisionReject
        \<longrightarrow> Reason (fst (Authorize p env)) = ''KEY_INVALID'')
   \<and> (Decision (fst (Authorize p env)) \<noteq> DecisionReject
        \<longrightarrow> Decision (fst (Authorize p env)) = DecisionAccept \<and> snd (Authorize p env) = None)"
  by (auto simp: Authorize_def parseAuthResponse_def emptyResult_def reasons Let_def
      split: option.splits sum.splits prod.splits)

theorem Authorize_parse_error_accepts_witness:
  "\<not> DebugSkip demoHTTPPolicy \<and> AuthURL demoHTTPPolicy \<noteq> []
   \<and> httpResponse demoAuthEnv = Some (200, ''<html>ok</html>'')
   \<and> TrimSpace ''<html>ok</html>'' \<noteq> [] \<and> jsonObject demoAuthEnv = None
   \<and> Authorize demoHTTPPolicy demoAuthEnv
       = (\<lparr>Decision = DecisionAccept, Reason = [], Message = ''auth response parse error'',
           StreamName = [], AllowRewind = None\<rparr>, None)"
proof -
  have t: "TrimSpace ''<html>ok</html>'' \<noteq> []" by code_simp
  have h: "\<not> DebugSkip demoHTTPPolicy" "AuthURL demoHTTPPolicy \<noteq> []"
    "urlParseOK demoAuthEnv" "newRequestOK demoAuthEnv"
    "httpResponse demoAuthEnv = Some (200, ''<html>ok</html>'')" "jsonObject demoAuthEnv = None"
    by (simp_all add: demoHTTPPolicy_def demoAuthEnv_def)
  show ?thesis
    using Authorize_parse_error_accepts [of demoHTTPPolicy demoAuthEnv "''<html>ok</html>''"] t h
    by blast
qed


section \<open>Properties of the RTMP handler\<close>

text \<open>
  Claim C9 at the publishing names "..", ".", "live/.." and "?a=b": \<open>sanitizeStreamID\<close>
  rejects all of them (empty result), \<open>sanitizeStreamKey\<close> returns ".." or "." for
  them: it ends with \<open>filepath.Base\<close> and lacks the test for "." and ".." that
  \<open>sanitizeStreamID\<close> makes on the same value.
\<close>

theorem sanitizeStreamKey_dotdot:
  "sanitizeStreamKey ''..'' = ''..'' \<and> sanitizeStreamKey ''.'' = ''.''
   \<and> sanitizeStreamKey ''live/..'' = ''..'' \<and> sanitizeStreamKey ''?a=b'' = ''.''
   \<and> sanitizeStreamID ''..'' = [] \<and> sanitizeStreamID ''.'' = []
   \<and> sanitizeStreamID ''live/..'' = [] \<and> sanitizeStreamID ''?a=b'' = []"
  by code_simp


section \<open>Properties of rendering and reloading the playlist\<close>

subsection \<open>Digits and numerals\<close>

declare showNat.simps [simp del] trimLeftSpace.simps [simp del] trimRightSpace.simps [simp del]

lemma digitChar_props:
  assumes "d < 10"
  shows "isDigit (digitChar d)" "digitVal (digitChar d) = int d"
  using assms by (simp_all add: isDigit_def digitVal_def digitChar_def)

lemma intOfDigits_snoc: "intOfDigits (xs @ [c]) = 10 * intOfDigits xs + digitVal c"
  by (simp add: intOfDigits_def)

lemma showNat_digits: "list_all isDigit (showNat n) \<and> showNat n \<noteq> [] \<and> intOfDigits (showNat n) = int n"
proof (induction n rule: showNat.induct)
  case (1 n)
  show ?case
  proof (cases "n < 10")
    case True
    then show ?thesis
      using digitChar_props [of n] by (subst (1 2 3) showNat.simps) (simp add: intOfDigits_def)
  next
    case False
    have m: "n mod 10 < 10" by simp
    from False 1 have ih: "list_all isDigit (showNat (n div 10))"
      "intOfDigits (showNat (n div 10)) = int (n div 10)" by simp_all
    have eq: "showNat n = showNat (n div 10) @ [digitChar (n mod 10)]"
      using False by (subst showNat.simps) simp
    have "int (10 * (n div 10) + n mod 10) = int n"
      by simp
    then have "10 * int (n div 10) + int (n mod 10) = int n"
      by (simp only: of_nat_add of_nat_mult of_nat_numeral)
    then show ?thesis
      unfolding eq using ih digitChar_props [OF m] by (simp add: intOfDigits_snoc)
  qed
qed

lemma pad3_digits:
  assumes "k < 1000"
  shows "list_all isDigit (pad3 k)" "length (pad3 k) = 3" "intOfDigits (pad3 k) = int k"
proof -
  have a: "k div 100 < 10" using assms by simp
  have b: "k div 10 mod 10 < 10" by simp
  have c: "k mod 10 < 10" by simp
  show "list_all isDigit (pad3 k)" "length (pad3 k) = 3"
    using digitChar_props(1) [OF a] digitChar_props(1) [OF b] digitChar_props(1) [OF c]
    by (simp_all add: pad3_def)
  have m: "k mod (10 * 10) = 10 * (k div 10 mod 10) + k mod 10" by (rule mod_mult2_eq)
  have "k = 100 * (k div 100) + k mod 100" by simp
  with m have "k = 100 * (k div 100) + (10 * (k div 10 mod 10) + k mod 10)" by simp
  then have "int k = int (100 * (k div 100) + (10 * (k div 10 mod 10) + k mod 10))"
    by simp
  then have e: "int k = 100 * int (k div 100) + (10 * int (k div 10 mod 10) + int (k mod 10))"
    by (simp only: of_nat_add of_nat_mult of_nat_numeral)
  have "intOfDigits (pad3 k)
          = 10 * (10 * digitVal (digitChar (k div 100)) + digitVal (digitChar (k div 10 mod 10)))
            + digitVal (digitChar (k mod 10))"
    by (simp add: pad3_def intOfDigits_def)
  also have "\<dots> = 10 * (10 * int (k div 100) + int (k div 10 mod 10)) + int (k mod 10)"
    by (simp only: digitChar_props(2) [OF a] digitChar_props(2) [OF b] digitChar_props(2) [OF c])
  also have "\<dots> = int k" unfolding e by simp
  finally show "intOfDigits (pad3 k) = int k" .
qed

lemma not_digit_dot [simp]: "\<not> isDigit (CHR ''.'')"
  by (simp add: isDigit_def)

lemma takeWhile_digits:
  assumes "list_all isDigit xs" "\<not> isDigit c"
  shows "takeWhile isDigit (xs @ c # r) = xs" "dropWhile isDigit (xs @ c # r) = c # r"
  using assms by (induction xs) auto

lemma parseUnsignedDecimal_show:
  assumes "b < 1000"
  shows "parseUnsignedDecimal (showNat a @ ''.'' @ pad3 b) = Some (of_nat a + of_nat b / 1000)"
proof -
  have d: "list_all isDigit (showNat a)" "showNat a \<noteq> []" "intOfDigits (showNat a) = int a"
    using showNat_digits [of a] by simp_all
  have tw: "takeWhile isDigit (showNat a @ CHR ''.'' # pad3 b) = showNat a"
    "dropWhile isDigit (showNat a @ CHR ''.'' # pad3 b) = CHR ''.'' # pad3 b"
    using takeWhile_digits [OF d(1) not_digit_dot] by simp_all
  show ?thesis
    using pad3_digits [OF assms] d
    by (simp add: parseUnsignedDecimal_def tw Let_def)
qed

subsection \<open>Formatted numbers\<close>

text \<open>
  A number written with \<open>%.3f\<close> is read back by \<open>ParseFloat\<close> as its rounding to three
  decimals, a number written with \<open>%d\<close> by \<open>ParseUint\<close> as itself; neither contains
  white space, a comma, a double quote or a line feed.
\<close>

lemma roundHalfEven_nonneg: "0 \<le> x \<Longrightarrow> 0 \<le> roundHalfEven x"
  by (auto simp: roundHalfEven_def Let_def)

lemma showNat_chars: "list_all numChar (showNat n)"
  using showNat_digits [of n] by (auto simp: numChar_def list_all_iff)

lemma pad3_chars: "k < 1000 \<Longrightarrow> list_all numChar (pad3 k)"
  using pad3_digits(1) [of k] by (auto simp: numChar_def list_all_iff)

lemma isDigit_not_special:
  assumes "isDigit c"
  shows "c \<noteq> nl" "c \<noteq> dq" "c \<noteq> CHR '',''" "c \<noteq> CHR ''=''" "c \<noteq> CHR ''#''"
    "c \<noteq> CHR ''-''" "c \<noteq> CHR ''+''" "c \<noteq> CHR ''.''"
  using assms by (auto simp: isDigit_def nl_def dq_def)

lemma numChar_not_special:
  assumes "numChar c"
  shows "c \<noteq> nl" "c \<noteq> dq" "c \<noteq> CHR '',''" "c \<noteq> CHR ''=''" "c \<noteq> CHR ''#''"
  using assms isDigit_not_special [of c] by (auto simp: numChar_def nl_def dq_def)

lemma spaceRunes_nonempty: "[] \<notin> set spaceRunes"
  by (simp add: spaceRunes_def)

lemma spaceLen_zero:
  assumes "s \<noteq> []" "hd s \<notin> spaceFirst"
  shows "spaceLen s = 0"
proof -
  have "\<not> prefix r s" if "r \<in> set spaceRunes" for r
  proof
    assume p: "prefix r s"
    from that spaceRunes_nonempty have "r \<noteq> []" by auto
    with p assms(1) have "hd r = hd s" by (cases r; cases s) auto
    moreover have "hd r \<in> hd ` set spaceRunes" using that by (rule imageI)
    ultimately show False using assms(2) by (simp add: spaceFirst_def)
  qed
  then have "filter (\<lambda>r. prefix r s) spaceRunes = []" by (simp add: filter_empty_conv)
  then show ?thesis by (simp add: spaceLen_def)
qed

lemma lastSpaceLen_zero:
  assumes "s \<noteq> []" "last s \<notin> spaceLast"
  shows "lastSpaceLen s = 0"
proof -
  have "\<not> suffix r s" if "r \<in> set spaceRunes" for r
  proof
    assume p: "suffix r s"
    from that spaceRunes_nonempty have "r \<noteq> []" by auto
    with p have "last r = last s" by (auto simp: suffix_def)
    moreover have "last r \<in> last ` set spaceRunes" using that by (rule imageI)
    ultimately show False using assms(2) by (simp add: spaceLast_def)
  qed
  then have "filter (\<lambda>r. suffix r s) spaceRunes = []" by (simp add: filter_empty_conv)
  then show ?thesis by (simp add: lastSpaceLen_def)
qed

lemma TrimSpace_id:
  assumes "s \<noteq> []" "hd s \<notin> spaceFirst" "last s \<notin> spaceLast"
  shows "TrimSpace s = s"
  using spaceLen_zero [OF assms(1,2)] lastSpaceLen_zero [OF assms(1,3)]
  by (simp add: TrimSpace_def trimLeftSpace.simps trimRightSpace.simps)

lemma TrimSpace_Nil [simp]: "TrimSpace [] = []"
  by (simp add: TrimSpace_def trimLeftSpace.simps trimRightSpace.simps)

lemma space_bytes:
  assumes "c \<in> spaceFirst \<union> spaceLast"
  shows "(of_char c :: nat) \<le> 32 \<or> 128 \<le> (of_char c :: nat)"
proof -
  have "\<forall>r \<in> set spaceRunes.
          ((of_char (hd r) :: nat) \<le> 32 \<or> 128 \<le> (of_char (hd r) :: nat))
          \<and> ((of_char (last r) :: nat) \<le> 32 \<or> 128 \<le> (of_char (last r) :: nat))"
    by (simp add: spaceRunes_def)
  then show ?thesis using assms by (auto simp: spaceFirst_def spaceLast_def)
qed

lemma printable_not_space:
  assumes "32 < (of_char c :: nat)" "(of_char c :: nat) < 128"
  shows "c \<notin> spaceFirst" "c \<notin> spaceLast"
  using space_bytes [of c] assms by auto

lemma isDigit_not_space: "isDigit c \<Longrightarrow> c \<notin> spaceFirst \<and> c \<notin> spaceLast"
  using printable_not_space [of c] by (simp add: isDigit_def)

lemma numChar_not_space: "numChar c \<Longrightarrow> c \<notin> spaceFirst \<and> c \<notin> spaceLast"
  using isDigit_not_space [of c] printable_not_space [of "CHR ''-''"]
    printable_not_space [of "CHR ''.''"]
  by (auto simp: numChar_def)

lemma plain_not_space:
  "CHR ''#'' \<notin> spaceFirst" "CHR ''D'' \<notin> spaceFirst" "CHR ''U'' \<notin> spaceFirst"
  "dq \<notin> spaceLast" "CHR '','' \<notin> spaceLast" "CHR ''U'' \<notin> spaceLast" "CHR ''Y'' \<notin> spaceLast"
  by (simp_all add: printable_not_space dq_def)

lemma fmt3_form:
  "\<exists>a b. b < 1000 \<and> fmt3 d = (if d < 0 then ''-'' else []) @ showNat a @ ''.'' @ pad3 b
         \<and> of_nat a + of_nat b / 1000 = (of_int (roundHalfEven (\<bar>d\<bar> * 1000)) / 1000 :: rat)"
proof -
  define k where "k = nat (roundHalfEven (\<bar>d\<bar> * 1000))"
  have kk: "int k = roundHalfEven (\<bar>d\<bar> * 1000)"
    using roundHalfEven_nonneg [of "\<bar>d\<bar> * 1000"] by (simp add: k_def)
  have "k = 1000 * (k div 1000) + k mod 1000" by simp
  then have "(of_nat k :: rat) = 1000 * of_nat (k div 1000) + of_nat (k mod 1000)"
    by (metis of_nat_add of_nat_mult of_nat_numeral)
  then have "(of_nat (k div 1000) :: rat) + of_nat (k mod 1000) / 1000 = of_nat k / 1000"
    by simp
  moreover have "(of_nat k :: rat) = of_int (roundHalfEven (\<bar>d\<bar> * 1000))"
    using kk by (metis of_int_of_nat_eq)
  ultimately show ?thesis
    by (intro exI [of _ "k div 1000"] exI [of _ "k mod 1000"])
       (simp add: fmt3_def Let_def k_def)
qed

lemma showNat_hd: "\<exists>c cs. showNat n = c # cs \<and> isDigit c"
  using showNat_digits [of n] by (cases "showNat n") auto

lemma showNat_last: "isDigit (last (showNat n))"
  using showNat_digits [of n] by (simp add: list_all_iff)

lemma pad3_last: "k < 1000 \<Longrightarrow> isDigit (last (pad3 k))"
  using pad3_digits(1) [of k] by (simp add: pad3_def)

lemma ParseFloat_fmt3: "ParseFloat (fmt3 d) = Some (round3 d)"
proof -
  from fmt3_form [of d] obtain a b where b: "b < 1000"
    and f: "fmt3 d = (if d < 0 then ''-'' else []) @ showNat a @ ''.'' @ pad3 b"
    and v: "of_nat a + of_nat b / 1000 = (of_int (roundHalfEven (\<bar>d\<bar> * 1000)) / 1000 :: rat)"
    by blast
  have p: "parseUnsignedDecimal (showNat a @ ''.'' @ pad3 b) = Some (of_nat a + of_nat b / 1000)"
    by (rule parseUnsignedDecimal_show [OF b])
  show ?thesis
  proof (cases "d < 0")
    case True
    then show ?thesis using f p v
      by (simp add: ParseFloat_def parseDecimal_def round3_def decimal3_def)
  next
    case False
    from showNat_hd [of a] obtain c cs where c: "showNat a = c # cs" "isDigit c" by blast
    have ne: "c \<noteq> CHR ''-''" "c \<noteq> CHR ''+''" using isDigit_not_special [OF c(2)] by simp_all
    have "parseDecimal (showNat a @ ''.'' @ pad3 b) = parseUnsignedDecimal (showNat a @ ''.'' @ pad3 b)"
      using ne by (simp add: parseDecimal_def c(1))
    then show ?thesis using False f p v by (simp add: ParseFloat_def round3_def decimal3_def)
  qed
qed

lemma fmt3_chars:
  "list_all numChar (fmt3 d)" "fmt3 d \<noteq> []" "isDigit (last (fmt3 d))" "numChar (hd (fmt3 d))"
proof -
  from fmt3_form [of d] obtain a b where b: "b < 1000"
    and f: "fmt3 d = (if d < 0 then ''-'' else []) @ showNat a @ ''.'' @ pad3 b"
    by blast
  have s: "list_all numChar (showNat a)" by (rule showNat_chars)
  have p: "list_all numChar (pad3 b)" by (rule pad3_chars [OF b])
  show all: "list_all numChar (fmt3 d)" unfolding f using s p by (simp add: numChar_def)
  show ne: "fmt3 d \<noteq> []" unfolding f by simp
  have "pad3 b \<noteq> []" by (simp add: pad3_def)
  then have "last (fmt3 d) = last (pad3 b)" unfolding f by simp
  then show "isDigit (last (fmt3 d))" using pad3_last [OF b] by simp
  show "numChar (hd (fmt3 d))" using all ne by (cases "fmt3 d") simp_all
qed

lemma fmt3_no_special:
  "nl \<notin> set (fmt3 d)" "dq \<notin> set (fmt3 d)" "CHR '','' \<notin> set (fmt3 d)"
  "CHR ''='' \<notin> set (fmt3 d)"
proof -
  have a: "\<forall>c \<in> set (fmt3 d). numChar c" using fmt3_chars(1) [of d] by (simp add: list_all_iff)
  show "nl \<notin> set (fmt3 d)" using a numChar_not_special(1) by blast
  show "dq \<notin> set (fmt3 d)" using a numChar_not_special(2) by blast
  show "CHR '','' \<notin> set (fmt3 d)" using a numChar_not_special(3) by blast
  show "CHR ''='' \<notin> set (fmt3 d)" using a numChar_not_special(4) by blast
qed

lemma showInt_nonneg: "0 \<le> n \<Longrightarrow> showInt n = showNat (nat n)"
  by (simp add: showInt_def)

lemma showInt_chars:
  "list_all numChar (showInt n)" "showInt n \<noteq> []" "isDigit (last (showInt n))"
  using showNat_chars showNat_digits showNat_last
  by (auto simp: showInt_def numChar_def)

lemma showInt_no_special:
  "nl \<notin> set (showInt n)"
proof -
  have a: "\<forall>c \<in> set (showInt n). numChar c"
    using showInt_chars(1) [of n] by (simp add: list_all_iff)
  show ?thesis using a numChar_not_special(1) by blast
qed

lemma ParseUint_showInt:
  assumes "0 \<le> n" "n < 2 ^ 64"
  shows "ParseUint (showInt n) = Some n"
  using assms showNat_digits [of "nat n"] by (simp add: ParseUint_def showInt_nonneg)

lemma showInt_nonneg_digits: "0 \<le> n \<Longrightarrow> list_all isDigit (showInt n)"
  using showNat_digits [of "nat n"] by (simp add: showInt_nonneg)

subsection \<open>Splitting\<close>

lemma Split_no_sep: "c \<notin> set s \<Longrightarrow> Split c s = [s]"
  by (induction s) auto

lemma Split_at_sep: "c \<notin> set a \<Longrightarrow> Split c (a @ c # b) = a # Split c b"
  by (induction a) auto

lemma Split_lines:
  assumes "\<forall>l \<in> set ls. c \<notin> set l"
  shows "Split c (concat (map (\<lambda>l. l @ [c]) ls)) = ls @ [[]]"
  using assms by (induction ls) (simp_all add: Split_at_sep)

lemma Split_lines_append:
  assumes "\<forall>l \<in> set ls. c \<notin> set l"
  shows "Split c (concat (map (\<lambda>l. l @ [c]) ls) @ rest) = ls @ Split c rest"
  using assms by (induction ls) (simp_all add: Split_at_sep)

lemma takeWhile_neq:
  "c \<notin> set a \<Longrightarrow> takeWhile (\<lambda>x. x \<noteq> c) (a @ c # b) = a"
  "c \<notin> set a \<Longrightarrow> dropWhile (\<lambda>x. x \<noteq> c) (a @ c # b) = c # b"
  by (induction a) auto

lemma SplitN2_at:
  "c \<notin> set a \<Longrightarrow> SplitN2 c (a @ c # b) = [a, b]"
  by (simp add: SplitN2_def takeWhile_neq)

lemma TrimQuotes_id:
  assumes "s \<noteq> []" "hd s \<noteq> dq" "last s \<noteq> dq"
  shows "TrimQuotes s = s"
proof -
  have a: "dropWhile (\<lambda>c. c = dq) s = s" using assms by (cases s) auto
  have "rev s \<noteq> []" "hd (rev s) \<noteq> dq" using assms by (simp_all add: hd_rev)
  then have b: "dropWhile (\<lambda>c. c = dq) (rev s) = rev s" by (cases "rev s") auto
  show ?thesis by (simp add: TrimQuotes_def a b)
qed

lemma TrimQuotes_quoted:
  assumes "s \<noteq> []" "hd s \<noteq> dq" "last s \<noteq> dq"
  shows "TrimQuotes (dq # s @ [dq]) = s"
proof -
  have a: "dropWhile (\<lambda>c. c = dq) s = s" using assms by (cases s) auto
  have "rev s \<noteq> []" "hd (rev s) \<noteq> dq" using assms by (simp_all add: hd_rev)
  then have b: "dropWhile (\<lambda>c. c = dq) (rev s) = rev s" by (cases "rev s") auto
  have "dropWhile (\<lambda>c. c = dq) (dq # s @ [dq]) = s @ [dq]"
    using assms by (cases s) auto
  then show ?thesis by (simp add: TrimQuotes_def b)
qed

subsection \<open>Render writes the lines of the playlist\<close>

lemma joinLines_append [simp]: "joinLines (xs @ ys) = joinLines xs @ joinLines ys"
  by (simp add: joinLines_def)

lemma joinLines_Nil [simp]: "joinLines [] = []"
  by (simp add: joinLines_def)

lemma joinLines_Cons: "joinLines (l # ls) = lineText l @ [nl] @ joinLines ls"
  by (simp add: joinLines_def)

lemma renderPart_line:
  "renderPart pt = joinLines [PartTag (part_Duration pt) (part_URI pt)]"
  by (simp add: renderPart_def joinLines_def)

lemma renderParts_lines:
  "concat (map renderPart ps) = joinLines (map (\<lambda>pt. PartTag (part_Duration pt) (part_URI pt)) ps)"
  by (induction ps) (simp_all add: renderPart_def joinLines_def)

lemma renderSegment_lines: "renderSegment c seg = joinLines (segmentLines c seg)"
  by (simp add: renderSegment_def segmentLines_def renderParts_lines joinLines_Cons)

lemma renderSegments_lines:
  "concat (map (renderSegment c) segs) = joinLines (concat (map (segmentLines c) segs))"
  by (induction segs) (simp_all add: renderSegment_lines)

lemma showInt_zero: "showInt 0 = ''0''"
  by code_simp

lemma Render_lines: "Render p = joinLines (renderLines p)"
  by (cases "segments p")
     (simp_all add: Render_def renderLines_def headerLines_def renderSegments_lines
        renderSegment_lines joinLines_Cons showInt_zero)

subsection \<open>Parsing one rendered line\<close>

lemma TrimSpace_tag:
  assumes "s \<noteq> []" "last s \<notin> spaceLast"
  shows "TrimSpace (CHR ''#'' # s) = CHR ''#'' # s"
  using assms by (intro TrimSpace_id) (simp_all add: plain_not_space)

lemma last_digit_ok: "isDigit c \<Longrightarrow> c \<notin> spaceLast"
  using isDigit_not_space by blast

lemma lineText_trim:
  assumes "\<forall>u. l \<noteq> UriLine u"
  shows "TrimSpace (lineText l) = lineText l"
proof (cases l)
  case ExtM3U
  then show ?thesis by (simp add: TrimSpace_tag plain_not_space)
next
  case Version
  have "CHR ''9'' \<notin> spaceLast" by (simp add: printable_not_space)
  with Version show ?thesis by (simp add: TrimSpace_tag)
next
  case (TargetDurationTag n)
  then show ?thesis
    using showInt_chars(2,3) [of n] by (simp add: TrimSpace_tag last_digit_ok)
next
  case (ServerControl h ph)
  then show ?thesis
    using fmt3_chars(2,3) [of ph] by (simp add: TrimSpace_tag last_digit_ok)
next
  case (PartInf d)
  then show ?thesis
    using fmt3_chars(2,3) [of d] by (simp add: TrimSpace_tag last_digit_ok)
next
  case (MapTag f)
  then show ?thesis by (simp add: TrimSpace_tag plain_not_space)
next
  case (MediaSequence n)
  then show ?thesis
    using showInt_chars(2,3) [of n] by (simp add: TrimSpace_tag last_digit_ok)
next
  case DiscontinuityTag
  then show ?thesis by (simp add: TrimSpace_tag plain_not_space)
next
  case (PartTag d u)
  then show ?thesis by (simp add: TrimSpace_tag plain_not_space)
next
  case (ExtInf d)
  then show ?thesis by (simp add: TrimSpace_tag plain_not_space)
next
  case (UriLine u)
  with assms show ?thesis by simp
qed

lemma parseLine_header:
  assumes "isHeaderLine l" "\<not> psExpectURI st"
  shows "parseLine now st (lineText l) = Inr st"
proof -
  have u: "\<forall>u. l \<noteq> UriLine u" using assms(1) by (auto simp: isHeaderLine_def)
  show ?thesis
    using assms unfolding parseLine_def Let_def lineText_trim [OF u]
    by (cases l) (simp_all add: isHeaderLine_def)
qed

lemma parseLine_mediaSequence:
  assumes "\<not> psExpectURI st" "0 \<le> n" "n < 2 ^ 64"
  shows "parseLine now st (lineText (MediaSequence n))
           = Inr (st\<lparr>psHasMediaSeq := True, psNextSeq := n\<rparr>)"
proof -
  have d: "list_all isDigit (showInt n)" "showInt n \<noteq> []"
    using showInt_nonneg_digits [OF assms(2)] showInt_chars(2) by simp_all
  have "isDigit (hd (showInt n))" using d by (cases "showInt n") simp_all
  then have t: "TrimSpace (showInt n) = showInt n"
    using d showInt_chars(3) [of n] isDigit_not_space by (intro TrimSpace_id) auto
  have tr: "TrimSpace (lineText (MediaSequence n)) = lineText (MediaSequence n)"
    by (rule lineText_trim) simp
  show ?thesis
    using assms(1) unfolding parseLine_def Let_def tr
    by (simp add: TrimPrefix_def t ParseUint_showInt [OF assms(2,3)])
qed

lemma parseLine_discontinuity:
  assumes "\<not> psExpectURI st"
  shows "parseLine now st (lineText DiscontinuityTag)
           = Inr (st\<lparr>psPendingDiscontinuity := True\<rparr>)"
proof -
  have tr: "TrimSpace (lineText DiscontinuityTag) = lineText DiscontinuityTag"
    by (rule lineText_trim) simp
  show ?thesis using assms unfolding parseLine_def Let_def tr by simp
qed

lemma parseLine_extinf:
  assumes "\<not> psExpectURI st"
  shows "parseLine now st (lineText (ExtInf d))
           = Inr (st\<lparr>psPendingDuration := round3 d, psExpectURI := True\<rparr>)"
proof -
  have ne: "fmt3 d \<noteq> []" by (rule fmt3_chars(2))
  have "hd (fmt3 d @ '','') = hd (fmt3 d)" using ne by simp
  then have "hd (fmt3 d @ '','') \<notin> spaceFirst"
    using fmt3_chars(4) [of d] numChar_not_space by simp
  then have t: "TrimSpace (fmt3 d @ '','') = fmt3 d @ '',''"
    by (intro TrimSpace_id) (simp_all add: plain_not_space)
  have i: "IndexByte (fmt3 d @ '','') (CHR '','') = Some (length (fmt3 d))"
    using fmt3_no_special(3) [of d] by (simp add: IndexByte_def takeWhile_neq)
  have tr: "TrimSpace (lineText (ExtInf d)) = lineText (ExtInf d)"
    by (rule lineText_trim) simp
  show ?thesis
    using assms unfolding parseLine_def Let_def tr
    by (simp add: TrimPrefix_def t i ParseFloat_fmt3)
qed

lemma parsePartLine_rendered:
  assumes "cleanPartURI u"
  shows "parsePartLine (lineText (PartTag d u)) = Some \<lparr>part_URI = u, part_Duration = round3 d\<rparr>"
proof -
  let ?f1 = "''DURATION='' @ fmt3 d"
  let ?f2 = "''URI='' @ dq # u @ [dq]"
  let ?attrs = "?f1 @ CHR '','' # ?f2"
  from assms have u: "u \<noteq> []" "CHR '','' \<notin> set u" "hd u \<noteq> dq" "last u \<noteq> dq"
    by (simp_all add: cleanPartURI_def)
  have pre: "TrimPrefix (lineText (PartTag d u)) ''#EXT-X-PART:'' = ?attrs"
    by (simp add: TrimPrefix_def)
  have ta: "TrimSpace ?attrs = ?attrs"
    by (intro TrimSpace_id) (simp_all add: plain_not_space)
  have c1: "CHR '','' \<notin> set ?f1" using fmt3_no_special(3) [of d] by simp
  have c2: "CHR '','' \<notin> set ?f2" using u(2) by (simp add: dq_def)
  have sp: "Split (CHR '','') ?attrs = [?f1, ?f2]"
    using Split_at_sep [OF c1, of ?f2] Split_no_sep [OF c2] by simp
  have ne: "fmt3 d \<noteq> []" by (rule fmt3_chars(2))
  have l1: "last ?f1 \<notin> spaceLast"
    using ne fmt3_chars(3) [of d] isDigit_not_space by simp
  have t1: "TrimSpace ?f1 = ?f1"
    using l1 by (intro TrimSpace_id) (simp_all add: plain_not_space)
  have t2: "TrimSpace ?f2 = ?f2"
    by (intro TrimSpace_id) (simp_all add: plain_not_space)
  have s1: "SplitN2 (CHR ''='') ?f1 = [''DURATION'', fmt3 d]"
    using SplitN2_at [of "CHR ''=''" "''DURATION''" "fmt3 d"] by simp
  have s2: "SplitN2 (CHR ''='') ?f2 = [''URI'', dq # u @ [dq]]"
    using SplitN2_at [of "CHR ''=''" "''URI''" "dq # u @ [dq]"] by simp
  have "hd (fmt3 d) \<noteq> dq" using fmt3_chars(4) [of d] numChar_not_special(2) by blast
  moreover have "last (fmt3 d) \<noteq> dq"
    using fmt3_chars(3) [of d] isDigit_not_special(2) by blast
  ultimately have q1: "TrimQuotes (fmt3 d) = fmt3 d" using ne by (intro TrimQuotes_id)
  have q2: "TrimQuotes (dq # u @ [dq]) = u" using u by (intro TrimQuotes_quoted)
  have pf: "partFields \<lparr>part_URI = [], part_Duration = 0\<rparr> [?f1, ?f2]
              = \<lparr>part_URI = u, part_Duration = round3 d\<rparr>"
    by (simp add: t1 [simplified] t2 [simplified] s1 [simplified] s2 [simplified] q1 q2
        ParseFloat_fmt3 Let_def)
  show ?thesis
    unfolding parsePartLine_def Let_def pre ta sp pf using u(1) by simp
qed

lemma parseLine_part:
  assumes "\<not> psExpectURI st" "cleanPartURI u"
  shows "parseLine now st (lineText (PartTag d u))
           = (case selectSegment now st of
                Inl e \<Rightarrow> Inl e
              | Inr (st1, idx) \<Rightarrow>
                  Inr (st1\<lparr>psSegments := (psSegments st1)
                             [nat idx := (psSegments st1 ! nat idx)
                                \<lparr>Parts := Parts (psSegments st1 ! nat idx)
                                           @ [\<lparr>part_URI = u, part_Duration = round3 d\<rparr>]\<rparr>],
                           psCurrentIdx := idx\<rparr>))"
proof -
  have tr: "TrimSpace (lineText (PartTag d u)) = lineText (PartTag d u)"
    by (rule lineText_trim) simp
  have np: "\<not> prefix ''#EXT-X-MEDIA-SEQUENCE:'' (lineText (PartTag d u))"
    "lineText (PartTag d u) \<noteq> ''#EXT-X-DISCONTINUITY''"
    "prefix ''#EXT-X-PART:'' (lineText (PartTag d u))"
    "lineText (PartTag d u) \<noteq> []"
    by simp_all
  show ?thesis
    using assms(1) unfolding parseLine_def Let_def tr parsePartLine_rendered [OF assms(2)]
    by (simp only: np if_False if_True option.case)
qed

lemma parseLine_uri:
  assumes "psExpectURI st" "cleanSegmentURI u"
  shows "parseLine now st (lineText (UriLine u))
           = (case selectSegment now st of
                Inl e \<Rightarrow> Inl e
              | Inr (st1, idx) \<Rightarrow>
                  Inr (st1\<lparr>psSegments := (psSegments st1)
                             [nat idx := (psSegments st1 ! nat idx)
                                \<lparr>URI := u, Duration := psPendingDuration st1,
                                 Complete := True\<rparr>],
                           psCurrentIdx := idx, psExpectURI := False\<rparr>))"
proof -
  from assms(2) have u: "u \<noteq> []" "TrimSpace u = u" "hd u \<noteq> CHR ''#''"
    by (simp_all add: cleanSegmentURI_def)
  have np: "\<not> prefix ''#'' u" using u(1,3) by (cases u) simp_all
  show ?thesis
    using assms(1) u(1) np unfolding parseLine_def Let_def lineText.simps u(2) by simp
qed

subsection \<open>Parsing the lines of one segment\<close>

lemma createSegment_mkState:
  "createSegment now (mkState acc b idx n ex pd)
     = (mkState (acc @ [newSegment now n b]) False idx (u64 (n + 1)) ex pd, int (length acc))"
  by (simp add: createSegment_def mkState_def newSegment_def Let_def)

lemma select_idle:
  assumes "list_all Complete acc"
  shows "selectSegment now (mkState acc b (int (length acc) - 1) n ex pd)
           = Inr (mkState (acc @ [newSegment now n b]) False (int (length acc) - 1)
                    (u64 (n + 1)) ex pd, int (length acc))"
proof (cases "acc = []")
  case True
  then show ?thesis
    by (simp add: selectSegment_def Let_def createSegment_mkState)
       (simp add: mkState_def)
next
  case False
  then have "acc ! (length acc - 1) = last acc" by (simp add: last_conv_nth)
  moreover have "Complete (last acc)" using assms False by (simp add: list_all_iff)
  moreover have "nat (int (length acc) - 1) = length acc - 1" by simp
  ultimately have c: "Complete (psSegments (mkState acc b (int (length acc) - 1) n ex pd)
                        ! nat (psCurrentIdx (mkState acc b (int (length acc) - 1) n ex pd)))"
    by (simp add: mkState_def)
  have i: "\<not> psCurrentIdx (mkState acc b (int (length acc) - 1) n ex pd) < 0"
    "\<not> psCurrentIdx (mkState acc b (int (length acc) - 1) n ex pd)
        \<ge> int (length (psSegments (mkState acc b (int (length acc) - 1) n ex pd)))"
    using False by (simp_all add: mkState_def)
  show ?thesis
    unfolding selectSegment_def Let_def using c i
    by (simp only: if_False if_True createSegment_mkState)
qed

lemma select_open:
  assumes "\<not> Complete s"
  shows "selectSegment now (mkState (acc @ [s]) b (int (length acc)) n ex pd)
           = Inr (mkState (acc @ [s]) b (int (length acc)) n ex pd, int (length acc))"
  using assms by (simp add: selectSegment_def Let_def mkState_def)

lemma part_idle:
  assumes "list_all Complete acc" "cleanPartURI u"
  shows "parseLine now (mkState acc b (int (length acc) - 1) n False pd) (lineText (PartTag d u))
           = Inr (mkState (acc @ [(newSegment now n b)
                                    \<lparr>Parts := [\<lparr>part_URI = u, part_Duration = round3 d\<rparr>]\<rparr>])
                    False (int (length acc)) (u64 (n + 1)) False pd)"
proof -
  have e: "\<not> psExpectURI (mkState acc b (int (length acc) - 1) n False pd)"
    by (simp add: mkState_def)
  show ?thesis
    unfolding parseLine_part [OF e assms(2)] select_idle [OF assms(1)]
    by (simp add: mkState_def newSegment_def)
qed

lemma part_open:
  assumes "\<not> Complete s" "cleanPartURI u"
  shows "parseLine now (mkState (acc @ [s]) b (int (length acc)) n False pd)
             (lineText (PartTag d u))
           = Inr (mkState (acc @ [s\<lparr>Parts := Parts s
                                      @ [\<lparr>part_URI = u, part_Duration = round3 d\<rparr>]\<rparr>])
                    b (int (length acc)) n False pd)"
proof -
  have e: "\<not> psExpectURI (mkState (acc @ [s]) b (int (length acc)) n False pd)"
    by (simp add: mkState_def)
  show ?thesis
    unfolding parseLine_part [OF e assms(2)] select_open [OF assms(1)]
    by (simp add: mkState_def)
qed

lemma parts_open:
  assumes "\<not> Complete s" "\<forall>pt \<in> set ps. cleanPartURI (part_URI pt)"
  shows "parseLines now (mkState (acc @ [s]) b (int (length acc)) n False pd)
             (map lineText (partLines ps) @ rest)
           = parseLines now
               (mkState (acc @ [s\<lparr>Parts := Parts s @ map roundPart ps\<rparr>]) b (int (length acc))
                  n False pd) rest"
  using assms
proof (induction ps arbitrary: s)
  case Nil
  then show ?case by (simp add: partLines_def)
next
  case (Cons pt ps)
  let ?s' = "s\<lparr>Parts := Parts s @ [\<lparr>part_URI = part_URI pt,
                                         part_Duration = round3 (part_Duration pt)\<rparr>]\<rparr>"
  have c: "cleanPartURI (part_URI pt)" using Cons.prems(2) by simp
  have st: "parseLine now (mkState (acc @ [s]) b (int (length acc)) n False pd)
              (lineText (PartTag (part_Duration pt) (part_URI pt)))
            = Inr (mkState (acc @ [?s']) b (int (length acc)) n False pd)"
    by (rule part_open [OF Cons.prems(1) c])
  have nc: "\<not> Complete ?s'" using Cons.prems(1) by simp
  have rp: "\<lparr>part_URI = part_URI pt, part_Duration = round3 (part_Duration pt)\<rparr> = roundPart pt"
    by (simp add: roundPart_def)
  have ih: "parseLines now (mkState (acc @ [?s']) b (int (length acc)) n False pd)
             (map lineText (partLines ps) @ rest)
           = parseLines now
               (mkState (acc @ [?s'\<lparr>Parts := Parts ?s' @ map roundPart ps\<rparr>]) b
                  (int (length acc)) n False pd) rest"
    using Cons.IH [OF nc] Cons.prems(2) by simp
  show ?case
    using st ih by (simp add: partLines_def rp)
qed

lemma extinf_mkState:
  "parseLine now (mkState segs b idx n False pd) (lineText (ExtInf d))
     = Inr (mkState segs b idx n True (round3 d))"
proof -
  have e: "\<not> psExpectURI (mkState segs b idx n False pd)" by (simp add: mkState_def)
  show ?thesis unfolding parseLine_extinf [OF e] by (simp add: mkState_def)
qed

lemma disc_mkState:
  "parseLine now (mkState segs b idx n False pd) (lineText DiscontinuityTag)
     = Inr (mkState segs True idx n False pd)"
proof -
  have e: "\<not> psExpectURI (mkState segs b idx n False pd)" by (simp add: mkState_def)
  show ?thesis unfolding parseLine_discontinuity [OF e] by (simp add: mkState_def)
qed

lemma uri_idle:
  assumes "list_all Complete acc" "cleanSegmentURI u"
  shows "parseLine now (mkState acc b (int (length acc) - 1) n True pd) (lineText (UriLine u))
           = Inr (mkState (acc @ [(newSegment now n b)\<lparr>URI := u, Duration := pd,
                                                       Complete := True\<rparr>])
                    False (int (length acc)) (u64 (n + 1)) False pd)"
proof -
  have e: "psExpectURI (mkState acc b (int (length acc) - 1) n True pd)"
    by (simp add: mkState_def)
  show ?thesis
    unfolding parseLine_uri [OF e assms(2)] select_idle [OF assms(1)]
    by (simp add: mkState_def newSegment_def)
qed

lemma uri_open:
  assumes "\<not> Complete s" "cleanSegmentURI u"
  shows "parseLine now (mkState (acc @ [s]) b (int (length acc)) n True pd) (lineText (UriLine u))
           = Inr (mkState (acc @ [s\<lparr>URI := u, Duration := pd, Complete := True\<rparr>])
                    b (int (length acc)) n False pd)"
proof -
  have e: "psExpectURI (mkState (acc @ [s]) b (int (length acc)) n True pd)"
    by (simp add: mkState_def)
  show ?thesis
    unfolding parseLine_uri [OF e assms(2)] select_open [OF assms(1)]
    by (simp add: mkState_def)
qed

lemma parseLines_Cons_Inr:
  "parseLine now st l = Inr st' \<Longrightarrow> parseLines now st (l # ls) = parseLines now st' ls"
  by simp

lemma segment_complete:
  assumes acc: "list_all Complete acc"
    and c: "Complete seg" and u: "cleanSegmentURI (URI seg)"
    and ps: "\<forall>pt \<in> set (Parts seg). cleanPartURI (part_URI pt)"
    and en: "EnablePartial cf \<or> Parts seg = []"
  shows "parseLines now (mkState acc False (int (length acc) - 1) n False pd)
             (map lineText (segmentLines cf seg) @ rest)
           = parseLines now
               (mkState (acc @ [expectedSegment now n seg]) False (int (length acc))
                  (u64 (n + 1)) False (round3 (Duration seg))) rest"
proof -
  let ?b = "Discontinuity seg"
  let ?ext = "lineText (ExtInf (Duration seg))"
  let ?uri = "lineText (UriLine (URI seg))"
  let ?i = "int (length acc)"
  have lines: "map lineText (segmentLines cf seg) @ rest
                 = (if ?b then [lineText DiscontinuityTag] else [])
                   @ map lineText (partLines (Parts seg)) @ ?ext # ?uri # rest"
    using c en by (auto simp: segmentLines_def partLines_def simp del: lineText.simps)
  have s1: "parseLines now (mkState acc False (?i - 1) n False pd)
               (map lineText (segmentLines cf seg) @ rest)
            = parseLines now (mkState acc ?b (?i - 1) n False pd)
               (map lineText (partLines (Parts seg)) @ ?ext # ?uri # rest)"
  proof (cases ?b)
    case True
    have "parseLine now (mkState acc False (?i - 1) n False pd) (lineText DiscontinuityTag)
            = Inr (mkState acc True (?i - 1) n False pd)" by (rule disc_mkState)
    then show ?thesis unfolding lines using True
      by (simp del: lineText.simps)
  next
    case False
    then show ?thesis unfolding lines by (simp del: lineText.simps)
  qed
  show ?thesis
  proof (cases "Parts seg")
    case Nil
    have e: "(newSegment now n ?b)\<lparr>URI := URI seg, Duration := round3 (Duration seg),
                                   Complete := True\<rparr> = expectedSegment now n seg"
      using Nil c by (simp add: newSegment_def expectedSegment_def)
    have d1: "parseLine now (mkState acc ?b (?i - 1) n False pd) ?ext
                = Inr (mkState acc ?b (?i - 1) n True (round3 (Duration seg)))"
      by (rule extinf_mkState)
    have d2: "parseLine now (mkState acc ?b (?i - 1) n True (round3 (Duration seg))) ?uri
                = Inr (mkState (acc @ [expectedSegment now n seg]) False ?i (u64 (n + 1)) False
                         (round3 (Duration seg)))"
      using uri_idle [OF acc u, of now ?b n "round3 (Duration seg)"] unfolding e .
    have p: "map lineText (partLines (Parts seg)) @ ?ext # ?uri # rest = ?ext # ?uri # rest"
      using Nil by (simp add: partLines_def)
    show ?thesis
      unfolding s1 p parseLines_Cons_Inr [OF d1] parseLines_Cons_Inr [OF d2] ..
  next
    case (Cons pt pts)
    let ?s = "(newSegment now n ?b)\<lparr>Parts := [\<lparr>part_URI = part_URI pt,
                                                  part_Duration = round3 (part_Duration pt)\<rparr>]\<rparr>"
    have cp: "cleanPartURI (part_URI pt)" "\<forall>q \<in> set pts. cleanPartURI (part_URI q)"
      using ps Cons by simp_all
    have nc: "\<not> Complete ?s" by (simp add: newSegment_def)
    let ?s2 = "?s\<lparr>Parts := Parts ?s @ map roundPart pts\<rparr>"
    have nc2: "\<not> Complete ?s2" by (simp add: newSegment_def)
    have e: "?s2\<lparr>URI := URI seg, Duration := round3 (Duration seg), Complete := True\<rparr>
               = expectedSegment now n seg"
      using Cons c by (simp add: newSegment_def expectedSegment_def roundPart_def)
    have p: "map lineText (partLines (Parts seg)) @ ?ext # ?uri # rest
               = lineText (PartTag (part_Duration pt) (part_URI pt))
                 # (map lineText (partLines pts) @ ?ext # ?uri # rest)"
      using Cons by (simp add: partLines_def del: lineText.simps)
    have a1: "parseLine now (mkState acc ?b (?i - 1) n False pd)
                (lineText (PartTag (part_Duration pt) (part_URI pt)))
              = Inr (mkState (acc @ [?s]) False ?i (u64 (n + 1)) False pd)"
      by (rule part_idle [OF acc cp(1)])
    have b: "parseLines now (mkState (acc @ [?s]) False ?i (u64 (n + 1)) False pd)
               (map lineText (partLines pts) @ ?ext # ?uri # rest)
             = parseLines now (mkState (acc @ [?s2]) False ?i (u64 (n + 1)) False pd)
               (?ext # ?uri # rest)"
      by (rule parts_open [OF nc cp(2)])
    have d1: "parseLine now (mkState (acc @ [?s2]) False ?i (u64 (n + 1)) False pd) ?ext
                = Inr (mkState (acc @ [?s2]) False ?i (u64 (n + 1)) True (round3 (Duration seg)))"
      by (rule extinf_mkState)
    have d2: "parseLine now (mkState (acc @ [?s2]) False ?i (u64 (n + 1)) True
                               (round3 (Duration seg))) ?uri
                = Inr (mkState (acc @ [expectedSegment now n seg]) False ?i (u64 (n + 1)) False
                         (round3 (Duration seg)))"
      using uri_open [OF nc2 u, of now acc False "u64 (n + 1)" "round3 (Duration seg)"]
      unfolding e .
    show ?thesis
      unfolding s1 p parseLines_Cons_Inr [OF a1] b parseLines_Cons_Inr [OF d1]
        parseLines_Cons_Inr [OF d2] ..
  qed
qed

subsection \<open>Parsing a rendered playlist\<close>

lemma expected_round: "expectedSegment now (Seq seg) seg = roundSegment now seg"
  by (simp add: expectedSegment_def roundSegment_def)

lemma segments_complete:
  assumes "list_all Complete acc" "list_all Complete segs"
    and "\<forall>seg \<in> set segs. cleanSegment cf seg"
    and "consecutiveFrom n segs"
  shows "\<exists>n' pd'. parseLines now (mkState acc False (int (length acc) - 1) n False pd)
                     (map lineText (concat (map (segmentLines cf) segs)) @ rest)
                 = parseLines now
                     (mkState (acc @ map (roundSegment now) segs) False
                        (int (length (acc @ map (roundSegment now) segs)) - 1) n' False pd') rest
               \<and> (if segs = [] then n' = n else n' = u64 (Seq (last segs) + 1))"
  using assms
proof (induction segs arbitrary: acc n pd)
  case Nil
  then show ?case by auto
next
  case (Cons seg segs)
  from Cons.prems have c: "Complete seg" "list_all Complete segs"
    and cl: "cleanSegmentURI (URI seg)" "\<forall>pt \<in> set (Parts seg). cleanPartURI (part_URI pt)"
      "EnablePartial cf \<or> Parts seg = []" "\<forall>s \<in> set segs. cleanSegment cf s"
    and sq: "Seq seg = n" "consecutiveFrom (u64 (n + 1)) segs"
    by (auto simp: cleanSegment_def)
  let ?acc' = "acc @ [roundSegment now seg]"
  have acc': "list_all Complete ?acc'"
    using Cons.prems(1) c(1) by (simp add: roundSegment_def)
  have step: "parseLines now (mkState acc False (int (length acc) - 1) n False pd)
                (map lineText (segmentLines cf seg)
                 @ (map lineText (concat (map (segmentLines cf) segs)) @ rest))
              = parseLines now
                  (mkState ?acc' False (int (length ?acc') - 1) (u64 (n + 1)) False
                     (round3 (Duration seg)))
                  (map lineText (concat (map (segmentLines cf) segs)) @ rest)"
    using segment_complete [OF Cons.prems(1) c(1) cl(1) cl(2) cl(3), of now n pd]
    by (simp add: sq(1) [symmetric] expected_round)
  from Cons.IH [OF acc' c(2) cl(4) sq(2), of "round3 (Duration seg)"]
  obtain n' pd' where ih:
    "parseLines now (mkState ?acc' False (int (length ?acc') - 1) (u64 (n + 1)) False
                       (round3 (Duration seg)))
        (map lineText (concat (map (segmentLines cf) segs)) @ rest)
     = parseLines now
         (mkState (?acc' @ map (roundSegment now) segs) False
            (int (length (?acc' @ map (roundSegment now) segs)) - 1) n' False pd') rest"
    "if segs = [] then n' = u64 (n + 1) else n' = u64 (Seq (last segs) + 1)"
    by blast
  have l: "map lineText (concat (map (segmentLines cf) (seg # segs))) @ rest
           = map lineText (segmentLines cf seg)
             @ (map lineText (concat (map (segmentLines cf) segs)) @ rest)"
    by simp
  have n': "n' = u64 (Seq (last (seg # segs)) + 1)"
    using ih(2) sq(1) by (auto split: if_splits)
  show ?case
    unfolding l step using ih(1) n' by (intro exI [of _ n'] exI [of _ pd']) simp
qed

lemma parseLines_header:
  assumes "\<forall>l \<in> set hs. isHeaderLine l" "\<not> psExpectURI st"
  shows "parseLines now st (map lineText hs @ rest) = parseLines now st rest"
  using assms by (induction hs) (simp_all add: parseLine_header del: lineText.simps)

lemma headerLines_header: "\<forall>l \<in> set (headerLines cf). isHeaderLine l"
  by (simp add: headerLines_def isHeaderLine_def)

lemma round3_zero [simp]: "round3 0 = 0"
  by (simp add: round3_def decimal3_def roundHalfEven_def float64_def)

lemma parseLine_empty [simp]: "parseLine now st [] = Inr st"
  by (simp add: parseLine_def)

lemma trailing_incomplete:
  assumes acc: "list_all Complete acc" and nc: "\<not> Complete seg"
    and ps: "\<forall>pt \<in> set (Parts seg). cleanPartURI (part_URI pt)"
    and en: "EnablePartial cf \<or> Parts seg = []"
  shows "\<exists>st'. parseLines now (mkState acc False (int (length acc) - 1) n False pd)
                 (map lineText (segmentLines cf seg) @ [[]]) = Inr st'
              \<and> psHasMediaSeq st'
              \<and> psSegments st'
                  = (if Parts seg = [] then acc
                     else acc @ [(newSegment now n (Discontinuity seg))
                                   \<lparr>Parts := map roundPart (Parts seg)\<rparr>])"
proof -
  let ?b = "Discontinuity seg"
  let ?i = "int (length acc)"
  have lines: "map lineText (segmentLines cf seg) @ [[]]
                 = (if ?b then [lineText DiscontinuityTag] else [])
                   @ map lineText (partLines (Parts seg)) @ [[]]"
    using nc en by (auto simp: segmentLines_def partLines_def simp del: lineText.simps)
  have s1: "parseLines now (mkState acc False (?i - 1) n False pd)
               (map lineText (segmentLines cf seg) @ [[]])
            = parseLines now (mkState acc ?b (?i - 1) n False pd)
               (map lineText (partLines (Parts seg)) @ [[]])"
  proof (cases ?b)
    case True
    have "parseLine now (mkState acc False (?i - 1) n False pd) (lineText DiscontinuityTag)
            = Inr (mkState acc True (?i - 1) n False pd)" by (rule disc_mkState)
    then show ?thesis unfolding lines using True
      by (simp del: lineText.simps)
  next
    case False
    then show ?thesis unfolding lines by (simp del: lineText.simps)
  qed
  show ?thesis
  proof (cases "Parts seg")
    case Nil
    then show ?thesis unfolding s1 by (simp add: partLines_def mkState_def)
  next
    case (Cons pt pts)
    let ?s = "(newSegment now n ?b)\<lparr>Parts := [\<lparr>part_URI = part_URI pt,
                                                  part_Duration = round3 (part_Duration pt)\<rparr>]\<rparr>"
    have cp: "cleanPartURI (part_URI pt)" "\<forall>q \<in> set pts. cleanPartURI (part_URI q)"
      using ps Cons by simp_all
    have ncs: "\<not> Complete ?s" by (simp add: newSegment_def)
    let ?s2 = "?s\<lparr>Parts := Parts ?s @ map roundPart pts\<rparr>"
    have e: "?s2 = (newSegment now n ?b)\<lparr>Parts := map roundPart (Parts seg)\<rparr>"
      using Cons by (simp add: roundPart_def)
    have p: "map lineText (partLines (Parts seg)) @ [[]]
               = lineText (PartTag (part_Duration pt) (part_URI pt))
                 # (map lineText (partLines pts) @ [[]])"
      using Cons by (simp add: partLines_def del: lineText.simps)
    have a1: "parseLine now (mkState acc ?b (?i - 1) n False pd)
                (lineText (PartTag (part_Duration pt) (part_URI pt)))
              = Inr (mkState (acc @ [?s]) False ?i (u64 (n + 1)) False pd)"
      by (rule part_idle [OF acc cp(1)])
    have b: "parseLines now (mkState (acc @ [?s]) False ?i (u64 (n + 1)) False pd)
               (map lineText (partLines pts) @ [[]])
             = parseLines now (mkState (acc @ [?s2]) False ?i (u64 (n + 1)) False pd) [[]]"
      by (rule parts_open [OF ncs cp(2)])
    show ?thesis
      unfolding s1 p parseLines_Cons_Inr [OF a1] b e using Cons
      by (simp add: mkState_def)
  qed
qed

lemma lineText_no_nl:
  assumes "lineOK l"
  shows "nl \<notin> set (lineText l)"
  using assms fmt3_no_special(1) showInt_no_special
  by (cases l) (auto simp: lineOK_def nl_def dq_def)

lemma segmentLines_ok:
  assumes "cleanSegment cf seg"
  shows "\<forall>l \<in> set (segmentLines cf seg). lineOK l"
  using assms
  by (auto simp: cleanSegment_def segmentLines_def lineOK_def cleanPartURI_def
      cleanSegmentURI_def)

lemma headerLines_ok:
  assumes "nl \<notin> set (InitFilename cf)"
  shows "\<forall>l \<in> set (headerLines cf). lineOK l"
  using assms by (auto simp: headerLines_def lineOK_def)

lemma consecutiveFrom_append:
  "consecutiveFrom n (xs @ [y])
     = (consecutiveFrom n xs \<and> Seq y = (if xs = [] then n else u64 (Seq (last xs) + 1)))"
  by (induction xs arbitrary: n) auto

lemma Split_Render:
  assumes "\<forall>l \<in> set (renderLines p). lineOK l"
  shows "Split nl (Render p) = map lineText (renderLines p) @ [[]]"
proof -
  have "\<forall>x \<in> set (map lineText (renderLines p)). nl \<notin> set x"
    using assms lineText_no_nl by auto
  then have "Split nl (concat (map (\<lambda>x. x @ [nl]) (map lineText (renderLines p))))
               = map lineText (renderLines p) @ [[]]"
    by (rule Split_lines)
  then show ?thesis by (simp add: Render_lines joinLines_def comp_def)
qed

lemma parse_header_part:
  assumes "0 \<le> n" "n < 2 ^ 64"
  shows "parseLines now initialState (map lineText (headerLines cf @ [MediaSequence n]) @ rest)
           = parseLines now (mkState [] False (- 1) n False 0) rest"
proof -
  have e: "\<not> psExpectURI initialState" by (simp add: initialState_def)
  have m: "parseLine now initialState (lineText (MediaSequence n))
             = Inr (mkState [] False (- 1) n False 0)"
    unfolding parseLine_mediaSequence [OF e assms] by (simp add: initialState_def mkState_def)
  have l: "map lineText (headerLines cf @ [MediaSequence n]) @ rest
             = map lineText (headerLines cf) @ (lineText (MediaSequence n) # rest)"
    by (simp del: lineText.simps)
  show ?thesis
    unfolding l parseLines_header [OF headerLines_header e] parseLines_Cons_Inr [OF m] ..
qed

lemma parse_rendered_state:
  assumes r: "reloadable (cfg p) (segments p) d"
  shows "\<exists>st. parseLines now initialState (Split nl (Render p)) = Inr st
              \<and> psHasMediaSeq st \<and> psSegments st = parsedSegments now (segments p)"
proof -
  let ?cf = "cfg p"
  let ?segs = "segments p"
  from r have init: "nl \<notin> set (InitFilename ?cf)"
    and cl: "\<forall>seg \<in> set ?segs. cleanSegment ?cf seg"
    and bl: "list_all Complete (butlast ?segs)"
    by (simp_all add: reloadable_def)
  have ok: "\<forall>l \<in> set (renderLines p). lineOK l"
    using headerLines_ok [OF init] cl segmentLines_ok
    by (auto simp: renderLines_def lineOK_def)
  note sp = Split_Render [OF ok]
  show ?thesis
  proof (cases "?segs = []")
    case True
    have rl: "map lineText (renderLines p) @ [[]]
                = map lineText (headerLines ?cf @ [MediaSequence 0]) @ [[]]"
      using True by (simp add: renderLines_def del: lineText.simps)
    show ?thesis
      unfolding sp rl using parse_header_part [of 0 now ?cf "[[]]"] True
      by (simp add: parsedSegments_def mkState_def)
  next
    case False
    let ?n0 = "Seq (hd ?segs)"
    from r False have n0: "0 \<le> ?n0" "?n0 < 2 ^ 64" and cons: "consecutiveFrom ?n0 ?segs"
      by (simp_all add: reloadable_def)
    have hdseq: "(case ?segs of [] \<Rightarrow> 0 | seg # _ \<Rightarrow> Seq seg) = ?n0"
      using False by (cases ?segs) simp_all
    have decomp: "?segs = butlast ?segs @ [last ?segs]" using False by simp
    have a0: "list_all Complete ([] :: Segment list)" by simp
    show ?thesis
    proof (cases "Complete (last ?segs)")
      case True
      have "list_all Complete (butlast ?segs @ [last ?segs])" using bl True by simp
      then have allc: "list_all Complete ?segs" using decomp by simp
      have rl: "map lineText (renderLines p) @ [[]]
                  = map lineText (headerLines ?cf @ [MediaSequence ?n0])
                    @ (map lineText (concat (map (segmentLines ?cf) ?segs)) @ [[]])"
        by (simp add: renderLines_def hdseq del: lineText.simps)
      from segments_complete [OF a0 allc cl cons, of now 0 "[[]]"]
      obtain n' pd' where run:
        "parseLines now (mkState [] False (- 1) ?n0 False 0)
            (map lineText (concat (map (segmentLines ?cf) ?segs)) @ [[]])
         = parseLines now
             (mkState (map (roundSegment now) ?segs) False
                (int (length (map (roundSegment now) ?segs)) - 1) n' False pd') [[]]"
        by auto
      show ?thesis
        unfolding sp rl parse_header_part [OF n0] run using False True
        by (simp add: parsedSegments_def mkState_def)
    next
      case nc: False
      let ?cs = "butlast ?segs"
      let ?t = "last ?segs"
      have clcs: "\<forall>seg \<in> set ?cs. cleanSegment ?cf seg" using cl by (auto dest: in_set_butlastD)
      have clt: "cleanSegment ?cf ?t" using cl False by simp
      have cons2: "consecutiveFrom ?n0 ?cs"
        "Seq ?t = (if ?cs = [] then ?n0 else u64 (Seq (last ?cs) + 1))"
        using cons consecutiveFrom_append [of ?n0 ?cs ?t] decomp by simp_all
      have rl: "map lineText (renderLines p) @ [[]]
                  = map lineText (headerLines ?cf @ [MediaSequence ?n0])
                    @ (map lineText (concat (map (segmentLines ?cf) ?cs))
                       @ (map lineText (segmentLines ?cf ?t) @ [[]]))"
      proof -
        have "concat (map (segmentLines ?cf) ?segs)
                = concat (map (segmentLines ?cf) ?cs) @ segmentLines ?cf ?t"
          by (subst decomp) simp
        then show ?thesis by (simp add: renderLines_def hdseq del: lineText.simps)
      qed
      let ?acc = "map (roundSegment now) ?cs"
      from segments_complete [OF a0 bl clcs cons2(1), of now 0
          "map lineText (segmentLines ?cf ?t) @ [[]]"]
      obtain n' pd' where run:
        "parseLines now (mkState [] False (- 1) ?n0 False 0)
            (map lineText (concat (map (segmentLines ?cf) ?cs))
             @ (map lineText (segmentLines ?cf ?t) @ [[]]))
         = parseLines now (mkState ?acc False (int (length ?acc) - 1) n' False pd')
             (map lineText (segmentLines ?cf ?t) @ [[]])"
        and n': "if ?cs = [] then n' = ?n0 else n' = u64 (Seq (last ?cs) + 1)"
        by auto
      have n't: "n' = Seq ?t" using n' cons2(2) by (auto split: if_splits)
      have accc: "list_all Complete ?acc"
        using bl by (simp add: list_all_iff roundSegment_def)
      from clt have tp: "\<forall>pt \<in> set (Parts ?t). cleanPartURI (part_URI pt)"
        "EnablePartial ?cf \<or> Parts ?t = []" by (simp_all add: cleanSegment_def)
      from trailing_incomplete [OF accc nc tp, of now n' pd']
      obtain st' where fin:
        "parseLines now (mkState ?acc False (int (length ?acc) - 1) n' False pd')
            (map lineText (segmentLines ?cf ?t) @ [[]]) = Inr st'"
        "psHasMediaSeq st'"
        "psSegments st' = (if Parts ?t = [] then ?acc
                           else ?acc @ [(newSegment now n' (Discontinuity ?t))
                                          \<lparr>Parts := map roundPart (Parts ?t)\<rparr>])"
        by blast
      show ?thesis
        unfolding sp rl parse_header_part [OF n0] run fin(1) using fin(2,3) False nc n't
        by (simp add: parsedSegments_def)
    qed
  qed
qed

lemma parsePlaylist_state:
  assumes "parseLines now initialState (Split nl content) = Inr st" "psHasMediaSeq st"
  shows "parsePlaylist now content d
           = Inr (if d \<and> psSegments st \<noteq> [] \<and> \<not> Complete (last (psSegments st))
                  then butlast (psSegments st) else psSegments st,
                  if (if d \<and> psSegments st \<noteq> [] \<and> \<not> Complete (last (psSegments st))
                      then butlast (psSegments st) else psSegments st) \<noteq> []
                  then Seq (last (if d \<and> psSegments st \<noteq> [] \<and> \<not> Complete (last (psSegments st))
                                  then butlast (psSegments st) else psSegments st))
                  else 0)"
  using assms unfolding parsePlaylist_def initialState_def [symmetric]
  by (simp add: Let_def)

lemma parsedSegments_result:
  assumes r: "reloadable cf segs d"
  shows "(if d \<and> parsedSegments now segs \<noteq> [] \<and> \<not> Complete (last (parsedSegments now segs))
          then butlast (parsedSegments now segs) else parsedSegments now segs)
         = reloaded now segs d"
proof (cases "segs = []")
  case True
  then show ?thesis by (simp add: parsedSegments_def reloaded_def)
next
  case False
  from r have bl: "list_all Complete (butlast segs)" by (simp add: reloadable_def)
  have rc: "Complete (roundSegment now s) = Complete s" for s
    by (simp add: roundSegment_def)
  show ?thesis
  proof (cases "Complete (last segs)")
    case True
    then show ?thesis
      using False by (simp add: parsedSegments_def reloaded_def last_map rc)
  next
    case nc: False
    have blc: "butlast segs \<noteq> [] \<Longrightarrow> Complete (last (butlast segs))"
      using bl by (simp add: list_all_iff)
    show ?thesis
    proof (cases "Parts (last segs) = []")
      case True
      have nd: "d" using r nc True False by (auto simp: reloadable_def)
      show ?thesis
        using False nc True nd blc
        by (auto simp: parsedSegments_def reloaded_def last_map rc)
    next
      case pn: False
      show ?thesis
      proof (cases d)
        case True
        then show ?thesis
          using False nc pn
          by (simp add: parsedSegments_def reloaded_def newSegment_def)
      next
        case nd: False
        from r nd nc False have z: "URI (last segs) = []" "Duration (last segs) = 0"
          by (auto simp: reloadable_def)
        have e: "(newSegment now (Seq (last segs)) (Discontinuity (last segs)))
                   \<lparr>Parts := map roundPart (Parts (last segs))\<rparr> = roundSegment now (last segs)"
          using z nc by (simp add: newSegment_def roundSegment_def)
        have "map (roundSegment now) segs
                = map (roundSegment now) (butlast segs) @ [roundSegment now (last segs)]"
          using False by (metis append_butlast_last_id list.simps(8,9) map_append)
        then show ?thesis
          using False nc pn nd by (simp add: parsedSegments_def reloaded_def e)
      qed
    qed
  qed
qed

subsection \<open>The lines of a rendered playlist\<close>

text \<open>
  Claim C5 reads: for every playlist state, Render emits exactly one
  #EXT-X-MEDIA-SEQUENCE line whose value is the seq of the first segment (0 when the
  list is empty), emits an #EXTINF line followed by the segment URI for a segment if
  and only if the segment is complete, and for every pending segment emits only its
  #EXT-X-PART lines. The last part does not hold as stated. After
  \<open>MarkDiscontinuityNext\<close> and \<open>AddPart\<close> for segment 5 the list holds one pending
  segment with the discontinuity flag, and the playlist has the line
  #EXT-X-DISCONTINUITY before the part line of that segment.
\<close>

theorem Render_pending_discontinuity_counterexample:
  "segments pendingManager
     = [\<lparr>Seq = 5, URI = [], Duration = 0,
         Parts = [\<lparr>part_URI = ''p0.m4s'', part_Duration = Seconds 200000000\<rparr>],
         Discontinuity = True, Complete = False, CreationTimeMS = 0\<rparr>]
   \<and> Split nl (Render pendingManager)
       = [''#EXTM3U'', ''#EXT-X-VERSION:9'', ''#EXT-X-TARGETDURATION:2'',
          ''#EXT-X-SERVER-CONTROL:CAN-BLOCK-RELOAD=YES,HOLD-BACK=6.000,PART-HOLD-BACK=0.600'',
          ''#EXT-X-PART-INF:PART-TARGET=0.200'',
          ''#EXT-X-MAP:URI='' @ [dq] @ ''init.mp4'' @ [dq],
          ''#EXT-X-MEDIA-SEQUENCE:5'',
          ''#EXT-X-DISCONTINUITY'',
          ''#EXT-X-PART:DURATION=0.200,URI='' @ [dq] @ ''p0.m4s'' @ [dq],
          []]"
  by code_simp

text \<open>
  Claim C5, amended. For every playlist state the text of Render consists of the
  lines \<open>renderLines\<close>, each followed by a line feed, and when no URI and not the init
  file name contains a line feed these are the lines of the text. Exactly one of them is
  an #EXT-X-MEDIA-SEQUENCE line, and its value is the seq of the first segment, 0 when
  the list is empty. Among the lines of a segment there are an #EXTINF line and a URI
  line if and only if the segment is complete, and then they are its last two lines,
  the #EXTINF line with the duration of the segment followed by its URI. The lines of
  a pending segment are the #EXT-X-DISCONTINUITY line if the segment has the
  discontinuity flag, followed by its #EXT-X-PART lines if partial segments are
  enabled, and nothing else.
\<close>

theorem Render_line_structure:
  "Render p = joinLines (renderLines p)
   \<and> ((\<forall>l \<in> set (renderLines p). lineOK l)
        \<longrightarrow> Split nl (Render p) = map lineText (renderLines p) @ [[]])
   \<and> filter isMediaSequence (renderLines p)
       = [MediaSequence (case segments p of [] \<Rightarrow> 0 | seg # _ \<Rightarrow> Seq seg)]
   \<and> (\<forall>seg \<in> set (segments p).
         filter isSegmentEnd (segmentLines (cfg p) seg)
           = (if Complete seg then [ExtInf (Duration seg), UriLine (URI seg)] else [])
         \<and> (Complete seg
              \<longrightarrow> suffix [ExtInf (Duration seg), UriLine (URI seg)]
                     (segmentLines (cfg p) seg))
         \<and> (\<not> Complete seg
              \<longrightarrow> segmentLines (cfg p) seg
                     = (if Discontinuity seg then [DiscontinuityTag] else [])
                       @ (if EnablePartial (cfg p) then partLines (Parts seg) else [])))"
proof -
  have ms: "filter isMediaSequence (segmentLines c seg) = []" for c seg
    by (auto simp: segmentLines_def isMediaSequence_def filter_empty_conv)
  have "filter isMediaSequence (concat (map (segmentLines c) segs)) = []" for c segs
    by (induction segs) (simp_all add: ms)
  then have one: "filter isMediaSequence (renderLines p)
       = [MediaSequence (case segments p of [] \<Rightarrow> 0 | seg # _ \<Rightarrow> Seq seg)]"
    by (simp add: renderLines_def headerLines_def isMediaSequence_def)
  have se: "filter isSegmentEnd (segmentLines c seg)
           = (if Complete seg then [ExtInf (Duration seg), UriLine (URI seg)] else [])" for c seg
    by (auto simp: segmentLines_def isSegmentEnd_def filter_empty_conv)
  have su: "Complete seg \<Longrightarrow> suffix [ExtInf (Duration seg), UriLine (URI seg)]
                     (segmentLines c seg)" for c seg
    unfolding segmentLines_def by (simp only: if_True append_assoc [symmetric] suffix_appendI suffix_order.refl)
  have pe: "\<not> Complete seg \<Longrightarrow> segmentLines c seg
                     = (if Discontinuity seg then [DiscontinuityTag] else [])
                       @ (if EnablePartial c then partLines (Parts seg) else [])" for c seg
    by (simp add: segmentLines_def partLines_def)
  show ?thesis
    using Render_lines [of p] Split_Render [of p] one se su pe by blast
qed

theorem Render_line_structure_witness:
  "list_all lineOK (renderLines mixedManager)
   \<and> Split nl (Render mixedManager) = map lineText (renderLines mixedManager) @ [[]]
   \<and> filter isMediaSequence (renderLines mixedManager) = [MediaSequence 4]
   \<and> suffix [ExtInf 2, UriLine ''seg.m4s''] (segmentLines (cfg mixedManager) (demoSegP 4 True))
   \<and> segmentLines (cfg mixedManager) (demoSegP 5 False)
       = [DiscontinuityTag, PartTag (1 / 5) ''p0.m4s'', PartTag (1 / 5) ''p1.m4s'']"
proof -
  have ok: "\<forall>l \<in> set (renderLines mixedManager). lineOK l"
    by code_simp
  have sg: "segments mixedManager = [demoSegP 4 True, demoSegP 5 False]"
    by (simp add: mixedManager_def demoManager_def)
  have c: "Complete (demoSegP 4 True)" "\<not> Complete (demoSegP 5 False)"
    "Duration (demoSegP 4 True) = 2" "URI (demoSegP 4 True) = ''seg.m4s''"
    "Discontinuity (demoSegP 5 False)" "EnablePartial (cfg mixedManager)"
    "partLines (Parts (demoSegP 5 False)) = [PartTag (1 / 5) ''p0.m4s'', PartTag (1 / 5) ''p1.m4s'']"
    "Seq (demoSegP 4 True) = 4"
    by (simp_all add: demoSegP_def mixedManager_def demoManager_def demoConfig_def
          partLines_def demoPart_def)
  from Render_line_structure [of mixedManager]
  have s1: "(\<forall>l \<in> set (renderLines mixedManager). lineOK l)
        \<longrightarrow> Split nl (Render mixedManager) = map lineText (renderLines mixedManager) @ [[]]"
   and s2: "filter isMediaSequence (renderLines mixedManager)
       = [MediaSequence (case segments mixedManager of [] \<Rightarrow> 0 | seg # _ \<Rightarrow> Seq seg)]"
   and s3: "\<forall>seg \<in> set (segments mixedManager).
         filter isSegmentEnd (segmentLines (cfg mixedManager) seg)
           = (if Complete seg then [ExtInf (Duration seg), UriLine (URI seg)] else [])
         \<and> (Complete seg
              \<longrightarrow> suffix [ExtInf (Duration seg), UriLine (URI seg)]
                     (segmentLines (cfg mixedManager) seg))
         \<and> (\<not> Complete seg
              \<longrightarrow> segmentLines (cfg mixedManager) seg
                     = (if Discontinuity seg then [DiscontinuityTag] else [])
                       @ (if EnablePartial (cfg mixedManager) then partLines (Parts seg) else []))"
    by blast+
  show ?thesis
    using s1 s2 s3 ok c unfolding sg by (simp add: list_all_iff)
qed

subsection \<open>Reloading a rendered playlist\<close>

text \<open>
  Claim C2 reads: for every segment list held by the playlist manager, parsing the
  text of Render recovers the list: the same sequence numbers, discontinuity flags,
  part URIs and durations, completion flags, segment URIs and durations, up to the
  three decimals of durations and up to a trailing incomplete segment dropped on
  request. The playlist carries the sequence number of the first segment only and the
  parser counts on from it. After \<open>FinalizeSegment\<close> for the segments 1 and 3 the list
  holds the sequence numbers 1 and 3, and the reloaded list holds 1 and 2.
\<close>

theorem parsePlaylist_Render_gap_counterexample:
  "map Seq (segments gapManager) = [1, 3]
   \<and> parsePlaylist 0 (Render gapManager) True
       = Inr ([\<lparr>Seq = 1, URI = ''seg1.m4s'', Duration = 2, Parts = [],
                Discontinuity = False, Complete = True, CreationTimeMS = 0\<rparr>,
               \<lparr>Seq = 2, URI = ''seg3.m4s'', Duration = 2, Parts = [],
                Discontinuity = False, Complete = True, CreationTimeMS = 0\<rparr>], 2)"
  by code_simp

text \<open>
  Claim C2, amended. For every playlist state that is \<open>reloadable\<close>, parsing the text
  of Render succeeds and returns the segment list with the same sequence numbers,
  discontinuity flags, part URIs, completion flags and segment URIs, without the
  trailing incomplete segment when incomplete segments are dropped. Every part and
  segment duration d comes back as the \<open>float64\<close> nearest to the value that \<open>%.3f\<close>
  writes, which is the exact value of d rounded to three decimals, ties to even; every
  creation time is the time of parsing. The sequence number returned with the list is
  that of the last segment returned, 0 when there is none. Reloadable means: the
  sequence numbers are consecutive values of \<open>uint64\<close>; every segment except possibly
  the last is complete; partial segments are enabled or no segment has parts; the
  durations are not negative and below 2^62 seconds; the init file name has no line
  feed; the URI of a complete segment is not empty, has no line feed, no white space
  at either end and does not start with \<open>#\<close>; a part URI is not empty, has no line
  feed and no comma and neither starts nor ends with a double quote; and, when
  incomplete segments are kept, an incomplete segment has a part, no URI and
  duration 0. In the first state below, built by \<open>AddPart\<close> and \<open>FinalizeSegment\<close> with
  parts of 200 ms and segments of 2 s, every duration comes back as it is; in the
  second the part of 2500000 ns, which is held as a \<open>float64\<close> above 0.0025 and
  written as 0.003, comes back as the \<open>float64\<close> nearest to 0.003.
\<close>

theorem parsePlaylist_Render:
  assumes "reloadable (cfg p) (segments p) d"
  shows "parsePlaylist now (Render p) d
           = Inr (reloaded now (segments p) d,
                  if reloaded now (segments p) d \<noteq> []
                  then Seq (last (reloaded now (segments p) d)) else 0)"
proof -
  from parse_rendered_state [OF assms, of now] obtain st where
    st: "parseLines now initialState (Split nl (Render p)) = Inr st" "psHasMediaSeq st"
      "psSegments st = parsedSegments now (segments p)"
    by blast
  show ?thesis
    unfolding parsePlaylist_state [OF st(1,2)] st(3) parsedSegments_result [OF assms] ..
qed

theorem parsePlaylist_Render_witness:
  "reloadable (cfg reloadManager) (segments reloadManager) False
   \<and> map Seq (segments reloadManager) = [4, 5, 6]
   \<and> map Complete (segments reloadManager) = [True, True, False]
   \<and> parsePlaylist 7 (Render reloadManager) False = Inr (segments reloadManager, 6)
   \<and> reloadable (cfg reloadManager) (segments reloadManager) True
   \<and> parsePlaylist 7 (Render reloadManager) True
       = Inr (butlast (segments reloadManager), 5)
   \<and> reloadable (cfg oddManager) (segments oddManager) False
   \<and> map (\<lambda>seg. map part_Duration (Parts seg)) (segments oddManager) = [[Seconds 2500000]]
   \<and> 1 / 400 < Seconds 2500000
   \<and> parsePlaylist 7 (Render oddManager) False
       = Inr ([\<lparr>Seq = 1, URI = [], Duration = 0,
                Parts = [\<lparr>part_URI = ''p.m4s'', part_Duration = float64 (3 / 1000)\<rparr>],
                Discontinuity = False, Complete = False, CreationTimeMS = 7\<rparr>], 1)"
proof -
  have h: "reloadable (cfg reloadManager) (segments reloadManager) False"
    by code_simp
  have r: "reloaded 7 (segments reloadManager) False = segments reloadManager"
    by code_simp
  have l: "reloaded 7 (segments reloadManager) False \<noteq> []"
    "Seq (last (reloaded 7 (segments reloadManager) False)) = 6"
    by code_simp+
  have m: "map Seq (segments reloadManager) = [4, 5, 6]"
    "map Complete (segments reloadManager) = [True, True, False]"
    by code_simp+
  have h': "reloadable (cfg reloadManager) (segments reloadManager) True"
    by code_simp
  have r': "reloaded 7 (segments reloadManager) True = butlast (segments reloadManager)"
    by code_simp
  have l': "reloaded 7 (segments reloadManager) True \<noteq> []"
    "Seq (last (reloaded 7 (segments reloadManager) True)) = 5"
    by code_simp+
  have h'': "reloadable (cfg oddManager) (segments oddManager) False"
    by code_simp
  have r'': "reloaded 7 (segments oddManager) False
       = [\<lparr>Seq = 1, URI = [], Duration = 0,
           Parts = [\<lparr>part_URI = ''p.m4s'', part_Duration = float64 (3 / 1000)\<rparr>],
           Discontinuity = False, Complete = False, CreationTimeMS = 7\<rparr>]"
    by code_simp
  have l'': "reloaded 7 (segments oddManager) False \<noteq> []"
    "Seq (last (reloaded 7 (segments oddManager) False)) = 1"
    by code_simp+
  have a: "parsePlaylist 7 (Render reloadManager) False = Inr (segments reloadManager, 6)"
    using parsePlaylist_Render [OF h, of 7] l unfolding r by simp
  have b: "parsePlaylist 7 (Render reloadManager) True
             = Inr (butlast (segments reloadManager), 5)"
    using parsePlaylist_Render [OF h', of 7] l' unfolding r' by simp
  have c: "parsePlaylist 7 (Render oddManager) False
       = Inr ([\<lparr>Seq = 1, URI = [], Duration = 0,
                Parts = [\<lparr>part_URI = ''p.m4s'', part_Duration = float64 (3 / 1000)\<rparr>],
                Discontinuity = False, Complete = False, CreationTimeMS = 7\<rparr>], 1)"
    using parsePlaylist_Render [OF h'', of 7] l'' unfolding r'' by simp
  have o: "map (\<lambda>seg. map part_Duration (Parts seg)) (segments oddManager)
             = [[Seconds 2500000]]" "1 / 400 < Seconds 2500000"
    by code_simp+
  show ?thesis using h h' h'' m a b c o by blast
qed

end
